theory Spec2Isabelle
  imports Main
begin

section \<open>Text: strings of Unicode code points\<close>

text \<open>
  A Python \<open>str\<close> is a sequence of Unicode code points and \<open>len\<close> counts code points.
  A character is modelled by its code point. The input text of the optimizer is a sequence
  of Unicode scalar values; for a lone surrogate (U+D800..U+DFFF) Python's
  \<open>str.encode("utf-8")\<close> raises \<open>UnicodeEncodeError\<close>, so the theorems about encoded text
  assume \<open>scalar_text\<close>.
\<close>

type_synonym uchar = nat
type_synonym ustring = "uchar list"

definition scalar_value :: "uchar \<Rightarrow> bool" where
  "scalar_value c \<longleftrightarrow> c < 0xD800 \<or> (0xDFFF < c \<and> c < 0x110000)"

definition scalar_text :: "ustring \<Rightarrow> bool" where
  "scalar_text s \<longleftrightarrow> list_all scalar_value s"

text \<open>The bytes of \<open>c.encode("utf-8")\<close> for one character \<open>c\<close>.\<close>

definition utf8 :: "uchar \<Rightarrow> nat list" where
  "utf8 c =
     (if c < 0x80 then [c]
      else if c < 0x800 then [0xC0 + c div 64, 0x80 + c mod 64]
      else if c < 0x10000 then [0xE0 + c div 4096, 0x80 + c div 64 mod 64, 0x80 + c mod 64]
      else [0xF0 + c div 262144 mod 8, 0x80 + c div 4096 mod 64,
            0x80 + c div 64 mod 64, 0x80 + c mod 64])"

definition encode_utf8 :: "ustring \<Rightarrow> nat list" where
  "encode_utf8 s = concat (map utf8 s)"

text \<open>\<open>bin(n)[2:]\<close>: the binary digits of a non-negative integer, most significant first.\<close>

fun bin_digits :: "nat \<Rightarrow> string" where
  "bin_digits n =
     (if n < 2 then [if n = 0 then CHR ''0'' else CHR ''1'']
      else bin_digits (n div 2) @ [if n mod 2 = 0 then CHR ''0'' else CHR ''1''])"

declare bin_digits.simps [simp del]

text \<open>\<open>s.zfill(w)\<close> for a string of digits: pad with zeros on the left up to width \<open>w\<close>;
  a string that is already longer, or a width that is not positive, leaves it unchanged.\<close>

definition zfill :: "string \<Rightarrow> int \<Rightarrow> string" where
  "zfill s w = replicate (nat (w - int (length s))) (CHR ''0'') @ s"

section \<open>Mode encoders\<close>

datatype encoder = NumericEncoder | AlphanumericEncoder | ByteEncoder | KanjiEncoder

definition encoders :: "encoder list" where
  "encoders = [NumericEncoder, AlphanumericEncoder, ByteEncoder, KanjiEncoder]"

text \<open>
  Modelled from the spec: the mode indicators of the Numeric, Alphanumeric and Kanji
  encoders, whose classes are not part of the sources at hand; each is a fixed three-bit
  identifier (the Kanji one is the prefix of the golden vector of the spec). The indicator
  of \<open>ByteEncoder\<close> is the one of the source.
\<close>

fun mode_indicator :: "encoder \<Rightarrow> string" where
  "mode_indicator NumericEncoder = ''001''"
| "mode_indicator AlphanumericEncoder = ''010''"
| "mode_indicator ByteEncoder = ''011''"
| "mode_indicator KanjiEncoder = ''100''"

subsection \<open>The byte encoder (byte\_encoder.py)\<close>

definition ByteEncoder_encoded_bits :: "ustring \<Rightarrow> string" where
  "ByteEncoder_encoded_bits s =
     foldl (\<lambda>res byte. res @ zfill (bin_digits byte) 8) [] (encode_utf8 s)"

definition ByteEncoder_encode :: "ustring \<Rightarrow> int \<Rightarrow> string" where
  "ByteEncoder_encode input character_count_indicator_length =
     mode_indicator ByteEncoder
       @ zfill (bin_digits (length input)) character_count_indicator_length
       @ ByteEncoder_encoded_bits input"

definition ByteEncoder_length :: "ustring \<Rightarrow> int \<Rightarrow> int" where
  "ByteEncoder_length input character_count_indicator_length =
     int (length (mode_indicator ByteEncoder)) + character_count_indicator_length
       + 8 * int (length (encode_utf8 input))"

subsection \<open>The other encoders\<close>

text \<open>
  Modelled from the spec: \<open>length\<close> of the Numeric, Alphanumeric and Kanji encoders, which
  are not part of the sources at hand. It is the bit length of
  \<open>modeIndicator ++ zeroPad(binary(count), width) ++ payload\<close>, where the payload takes
  10 bits for each group of three digits, 7 for a trailing group of two and 4 for a trailing
  single digit (Numeric), 11 bits for each pair of symbols and 6 for a trailing single symbol
  (Alphanumeric), 13 bits for each character (Kanji).
\<close>

definition NumericEncoder_length :: "ustring \<Rightarrow> int \<Rightarrow> int" where
  "NumericEncoder_length input character_count_indicator_length =
     int (length (mode_indicator NumericEncoder)) + character_count_indicator_length
       + 10 * int (length input div 3)
       + (if length input mod 3 = 0 then 0 else if length input mod 3 = 1 then 4 else 7)"

definition AlphanumericEncoder_length :: "ustring \<Rightarrow> int \<Rightarrow> int" where
  "AlphanumericEncoder_length input character_count_indicator_length =
     int (length (mode_indicator AlphanumericEncoder)) + character_count_indicator_length
       + 11 * int (length input div 2) + 6 * int (length input mod 2)"

definition KanjiEncoder_length :: "ustring \<Rightarrow> int \<Rightarrow> int" where
  "KanjiEncoder_length input character_count_indicator_length =
     int (length (mode_indicator KanjiEncoder)) + character_count_indicator_length
       + 13 * int (length input)"

text \<open>The class method \<open>encoder_class.length\<close>, dispatched on the class.\<close>

fun encoder_length :: "encoder \<Rightarrow> ustring \<Rightarrow> int \<Rightarrow> int" where
  "encoder_length NumericEncoder = NumericEncoder_length"
| "encoder_length AlphanumericEncoder = AlphanumericEncoder_length"
| "encoder_length ByteEncoder = ByteEncoder_length"
| "encoder_length KanjiEncoder = KanjiEncoder_length"

text \<open>
  Modelled from the spec: \<open>is_valid_characters\<close> of the four encoders, which is not part of
  the sources at hand. Numeric accepts decimal digits only; Alphanumeric accepts digits,
  upper-case letters and the nine symbols of the 45-symbol alphabet; Byte accepts any text.
  Kanji accepts the characters whose legacy double-byte encoding lies in two code bands;
  that character set is the parameter \<open>kanji\<close>.
\<close>

definition is_digit :: "uchar \<Rightarrow> bool" where
  "is_digit c \<longleftrightarrow> 48 \<le> c \<and> c \<le> 57"

definition is_alphanumeric :: "uchar \<Rightarrow> bool" where
  "is_alphanumeric c \<longleftrightarrow>
     is_digit c \<or> (65 \<le> c \<and> c \<le> 90) \<or> c \<in> set [32, 36, 37, 42, 43, 45, 46, 47, 58]"

fun is_valid_characters :: "(uchar \<Rightarrow> bool) \<Rightarrow> encoder \<Rightarrow> ustring \<Rightarrow> bool" where
  "is_valid_characters kanji NumericEncoder s = list_all is_digit s"
| "is_valid_characters kanji AlphanumericEncoder s = list_all is_alphanumeric s"
| "is_valid_characters kanji ByteEncoder s = True"
| "is_valid_characters kanji KanjiEncoder s = list_all kanji s"

section \<open>The capacity table\<close>

text \<open>
  \<open>rMQRVersions\<close> is not part of the sources at hand. It is a dictionary from version names
  to entries, taken as the parameter \<open>rMQRVersions\<close> of \<open>compute\<close>; an entry gives the width
  of the character count indicator for every encoder class and the number of data bits for
  every error correction level.
\<close>

datatype ErrorCorrectionLevel = Level_M | Level_H

record rmqr_version =
  character_count_indicator_length :: "encoder \<Rightarrow> int"
  number_of_data_bits :: "ErrorCorrectionLevel \<Rightarrow> int"

section \<open>Segments (segments.py)\<close>

datatype error = DataTooLongError | IndexError | KeyError

type_synonym index = "int \<times> int \<times> int"

record Best =
  cost :: int
  index :: index

record Segment =
  data :: ustring
  encoder_class :: encoder

text \<open>
  \<open>compute_length\<close> sums, over the segments, the length given by the encoder class of the
  segment at the width the version gives that class. The dictionary lookup is inside the
  mapped function, so that it takes place only when there is a segment.
\<close>

definition compute_length ::
  "(string \<rightharpoonup> rmqr_version) \<Rightarrow> Segment list \<Rightarrow> string \<Rightarrow> error + int" where
  "compute_length rMQRVersions segments version_name =
     (if segments = [] then Inr 0
      else case rMQRVersions version_name of
        None \<Rightarrow> Inl KeyError
      | Some v \<Rightarrow>
          Inr (sum_list (map (\<lambda>s. encoder_length (encoder_class s) (data s)
                 (character_count_indicator_length v (encoder_class s))) segments)))"

subsection \<open>The optimizer and its tables\<close>

definition MAX_CHARACTER :: nat where
  "MAX_CHARACTER = 360"

definition INF_value :: int where
  "INF_value = 100000"

text \<open>
  The tables \<open>dp\<close> and \<open>parents\<close> are nested lists of the fixed shape
  \<open>(MAX_CHARACTER + 1) \<times> 4 \<times> 3\<close>, allocated by the constructor. They are modelled as
  functions of the index triple \<open>(n, mode, unfilled_length)\<close>. Every access of
  \<open>_compute_costs\<close> and \<open>_find_best\<close> is inside the shape, since \<open>compute\<close> runs them only
  on an input of at most \<open>MAX_CHARACTER\<close> characters; the accesses of \<open>_reconstruct_path\<close>
  take their indices from the table and go through Python's indexing rule \<open>py_index\<close>.
  The attribute \<open>qr_version\<close> does not exist before the first call of \<open>compute\<close>.
\<close>

record optimizer =
  dp :: "nat \<times> nat \<times> nat \<Rightarrow> int"
  parents :: "nat \<times> nat \<times> nat \<Rightarrow> index"
  qr_version :: "rmqr_version option"

definition init :: optimizer where
  "init = \<lparr>dp = (\<lambda>_. INF_value), parents = (\<lambda>_. (-1, -1, -1)), qr_version = None\<rparr>"

text \<open>Python's list indexing: a negative index counts from the end, anything outside
  raises \<open>IndexError\<close>.\<close>

definition py_index :: "nat \<Rightarrow> int \<Rightarrow> error + nat" where
  "py_index len i =
     (let j = (if i < 0 then int len + i else i)
      in if 0 \<le> j \<and> j < int len then Inr (nat j) else Inl IndexError)"

subsection \<open>\_compute\_costs\<close>

text \<open>
  The two functions that compute the cost and the new unfilled length of a transition end,
  in the source, with a branch that raises \<open>NotImplementedError\<close> for an encoder class
  other than the four of \<open>encoders\<close>; there is no such class, so that the branch does
  not appear here. The mode \<open>new_mode\<close> comes from \<open>range(4)\<close> and is a valid index of
  \<open>encoders\<close>.
\<close>

fun compute_new_state_without_mode_changing :: "uchar \<Rightarrow> nat \<Rightarrow> nat \<Rightarrow> int \<times> nat" where
  "compute_new_state_without_mode_changing character new_mode unfilled_length =
     (case encoders ! new_mode of
        NumericEncoder \<Rightarrow> (if unfilled_length = 0 then 4 else 3, (unfilled_length + 1) mod 3)
      | AlphanumericEncoder \<Rightarrow> (if unfilled_length = 0 then 6 else 5, (unfilled_length + 1) mod 2)
      | ByteEncoder \<Rightarrow> (8 * int (length (encode_utf8 [character])), 0)
      | KanjiEncoder \<Rightarrow> (13, 0))"

fun compute_new_state_with_mode_changing ::
  "rmqr_version \<Rightarrow> uchar \<Rightarrow> nat \<Rightarrow> nat \<Rightarrow> int \<times> nat" where
  "compute_new_state_with_mode_changing v character new_mode unfilled_length =
     (let encoder_class = encoders ! new_mode;
          character_count_indicator_length = character_count_indicator_length v encoder_class;
          new_length = (if encoder_class \<in> set [NumericEncoder, AlphanumericEncoder] then 1 else 0)
      in (encoder_length encoder_class [character] character_count_indicator_length, new_length))"

text \<open>The base case: the first loop of \<open>_compute_costs\<close>.\<close>

definition base_case :: "rmqr_version \<Rightarrow> optimizer \<Rightarrow> optimizer" where
  "base_case v self =
     fold (\<lambda>mode self.
        self\<lparr>dp := (dp self)((0, mode, 0) :=
                 encoder_length (encoders ! mode) []
                   (character_count_indicator_length v (encoders ! mode))),
             parents := (parents self)((0, mode, 0) := (0, 0, 0))\<rparr>)
       [0..<length encoders] self"

text \<open>The body of the innermost loop: one candidate transition
  \<open>(n, mode, unfilled_length) \<rightarrow> (n + 1, new_mode, new_length)\<close>.\<close>

definition relax ::
  "(uchar \<Rightarrow> bool) \<Rightarrow> rmqr_version \<Rightarrow> ustring \<Rightarrow> nat \<Rightarrow> nat \<Rightarrow> nat \<Rightarrow> nat \<Rightarrow> optimizer \<Rightarrow> optimizer" where
  "relax kanji v input n mode unfilled_length new_mode self =
     (if \<not> is_valid_characters kanji (encoders ! new_mode) [input ! n] then self
      else
        let (cost, new_length) =
              (if new_mode = mode
               then compute_new_state_without_mode_changing (input ! n) new_mode unfilled_length
               else compute_new_state_with_mode_changing v (input ! n) new_mode unfilled_length)
        in if dp self (n, mode, unfilled_length) + cost < dp self (n + 1, new_mode, new_length)
           then self\<lparr>dp := (dp self)((n + 1, new_mode, new_length) :=
                          dp self (n, mode, unfilled_length) + cost),
                     parents := (parents self)((n + 1, new_mode, new_length) :=
                          (int n, int mode, int unfilled_length))\<rparr>
           else self)"

definition relax_state ::
  "(uchar \<Rightarrow> bool) \<Rightarrow> rmqr_version \<Rightarrow> ustring \<Rightarrow> nat \<Rightarrow> nat \<Rightarrow> nat \<Rightarrow> optimizer \<Rightarrow> optimizer" where
  "relax_state kanji v input n mode unfilled_length self =
     (if dp self (n, mode, unfilled_length) = INF_value then self
      else fold (relax kanji v input n mode unfilled_length) [0..<4] self)"

definition relax_position ::
  "(uchar \<Rightarrow> bool) \<Rightarrow> rmqr_version \<Rightarrow> ustring \<Rightarrow> nat \<Rightarrow> optimizer \<Rightarrow> optimizer" where
  "relax_position kanji v input n self =
     fold (\<lambda>mode. fold (relax_state kanji v input n mode) [0..<3]) [0..<4] self"

definition compute_costs ::
  "(uchar \<Rightarrow> bool) \<Rightarrow> rmqr_version \<Rightarrow> ustring \<Rightarrow> optimizer \<Rightarrow> optimizer" where
  "compute_costs kanji v input self =
     fold (relax_position kanji v input) [0..<length input] (base_case v self)"

subsection \<open>\_find\_best\<close>

definition find_best :: "optimizer \<Rightarrow> ustring \<Rightarrow> Best" where
  "find_best self input =
     (let (best, best_index) =
            fold (\<lambda>mode. fold (\<lambda>unfilled_length (best, best_index).
                    if dp self (length input, mode, unfilled_length) < best
                    then (dp self (length input, mode, unfilled_length),
                          (int (length input), int mode, int unfilled_length))
                    else (best, best_index)) [0..<3]) [0..<4] (INF_value, (-1, -1, -1))
      in \<lparr>cost = best, index = best_index\<rparr>)"

subsection \<open>\_reconstruct\_path\<close>

definition parents_at :: "optimizer \<Rightarrow> index \<Rightarrow> error + index" where
  "parents_at self i =
     (case i of (a, b, c) \<Rightarrow>
        (case py_index (MAX_CHARACTER + 1) a of Inl e \<Rightarrow> Inl e | Inr n \<Rightarrow>
        (case py_index 4 b of Inl e \<Rightarrow> Inl e | Inr mode \<Rightarrow>
        (case py_index 3 c of Inl e \<Rightarrow> Inl e | Inr unfilled_length \<Rightarrow>
           Inr (parents self (n, mode, unfilled_length))))))"

text \<open>The \<open>while\<close> loop follows the parents until the first component is 0. Nothing in the
  loop itself bounds the number of steps, so that not returning is the value \<open>None\<close>.\<close>

partial_function (option) reconstruct_loop ::
  "optimizer \<Rightarrow> index \<Rightarrow> index list \<Rightarrow> (error + index list) option" where
  "reconstruct_loop self i path =
     (if fst i = 0 then Some (Inr path)
      else (case parents_at self i of
              Inl e \<Rightarrow> Some (Inl e)
            | Inr p \<Rightarrow> reconstruct_loop self p (path @ [i])))"

declare reconstruct_loop.simps [code]

definition reconstruct_path :: "optimizer \<Rightarrow> index \<Rightarrow> (error + index list) option" where
  "reconstruct_path self best_index =
     map_option (map_sum id rev) (reconstruct_loop self best_index [])"

subsection \<open>\_compute\_segments\<close>

definition char_at :: "ustring \<Rightarrow> int \<Rightarrow> error + uchar" where
  "char_at input i = (case py_index (length input) i of Inl e \<Rightarrow> Inl e | Inr j \<Rightarrow> Inr (input ! j))"

definition encoder_at :: "int \<Rightarrow> error + encoder" where
  "encoder_at mode = (case py_index (length encoders) mode of Inl e \<Rightarrow> Inl e | Inr j \<Rightarrow> Inr (encoders ! j))"

text \<open>The loop over the path, with the three local variables \<open>segments\<close>,
  \<open>current_segment_data\<close> and \<open>current_mode\<close> as accumulators.\<close>

fun segments_loop ::
  "index list \<Rightarrow> ustring \<Rightarrow> Segment list \<Rightarrow> ustring \<Rightarrow> int \<Rightarrow> error + (Segment list \<times> ustring \<times> int)" where
  "segments_loop [] input segments current_segment_data current_mode =
     Inr (segments, current_segment_data, current_mode)"
| "segments_loop (p # path) input segments current_segment_data current_mode =
     (if current_mode = -1 then
        (case char_at input (fst p - 1) of Inl e \<Rightarrow> Inl e | Inr ch \<Rightarrow>
           segments_loop path input segments (current_segment_data @ [ch]) (fst (snd p)))
      else if current_mode = fst (snd p) then
        (case char_at input (fst p - 1) of Inl e \<Rightarrow> Inl e | Inr ch \<Rightarrow>
           segments_loop path input segments (current_segment_data @ [ch]) current_mode)
      else
        (case encoder_at current_mode of Inl e \<Rightarrow> Inl e | Inr enc \<Rightarrow>
        (case char_at input (fst p - 1) of Inl e \<Rightarrow> Inl e | Inr ch \<Rightarrow>
           segments_loop path input
             (segments @ [\<lparr>data = current_segment_data, encoder_class = enc\<rparr>]) [ch] (fst (snd p)))))"

definition compute_segments :: "index list \<Rightarrow> ustring \<Rightarrow> error + Segment list" where
  "compute_segments path input =
     (case segments_loop path input [] [] (-1) of
        Inl e \<Rightarrow> Inl e
      | Inr (segments, current_segment_data, current_mode) \<Rightarrow>
          if current_mode \<noteq> -1 then
            (case encoder_at current_mode of Inl e \<Rightarrow> Inl e | Inr enc \<Rightarrow>
               Inr (segments @ [\<lparr>data = current_segment_data, encoder_class = enc\<rparr>]))
          else Inr segments)"

subsection \<open>compute\<close>

text \<open>
  \<open>compute\<close> returns the outcome (the segments, or the exception raised) together with the
  optimizer after the call; \<open>None\<close> stands for a call that does not return.
\<close>

definition compute ::
  "(uchar \<Rightarrow> bool) \<Rightarrow> (string \<rightharpoonup> rmqr_version) \<Rightarrow> optimizer \<Rightarrow> ustring \<Rightarrow> string
     \<Rightarrow> ErrorCorrectionLevel \<Rightarrow> ((error + Segment list) \<times> optimizer) option" where
  "compute kanji rMQRVersions self input version ecc =
     (if length input > MAX_CHARACTER then Some (Inl DataTooLongError, self)
      else case rMQRVersions version of
        None \<Rightarrow> Some (Inl KeyError, self)
      | Some v \<Rightarrow>
          let self1 = self\<lparr>qr_version := Some v\<rparr>;
              self2 = compute_costs kanji v input self1;
              best = find_best self2 input
          in if cost best > number_of_data_bits v ecc then Some (Inl DataTooLongError, self2)
             else (case reconstruct_path self2 (index best) of
                     None \<Rightarrow> None
                   | Some (Inl e) \<Rightarrow> Some (Inl e, self2)
                   | Some (Inr path) \<Rightarrow> Some (compute_segments path input, self2)))"

section \<open>Auxiliary definitions\<close>

text \<open>The pair \<open>(cost, new_length)\<close> that the innermost loop of \<open>_compute_costs\<close> computes
  for a candidate transition.\<close>

definition new_state :: "rmqr_version \<Rightarrow> uchar \<Rightarrow> nat \<Rightarrow> nat \<Rightarrow> nat \<Rightarrow> int \<times> nat" where
  "new_state v character mode unfilled_length new_mode =
     (if new_mode = mode
      then compute_new_state_without_mode_changing character new_mode unfilled_length
      else compute_new_state_with_mode_changing v character new_mode unfilled_length)"

text \<open>The terminal states in the order in which \<open>_find_best\<close> visits them.\<close>

definition keys12 :: "(nat \<times> nat) list" where
  "keys12 = map (\<lambda>j. (j div 3, j mod 3)) [0..<12]"

subsection \<open>Sample capacity tables\<close>

text \<open>A table with the single entry R7x43 (widths 4, 3, 3, 2; 48 and 24 data bits), a
  variant in which one digit costs the same in the Numeric and in the Alphanumeric mode,
  and a Kanji character set that is empty.\<close>

definition R7x43 :: rmqr_version where
  "R7x43 = \<lparr>character_count_indicator_length =
       (\<lambda>e. case e of NumericEncoder \<Rightarrow> 4 | AlphanumericEncoder \<Rightarrow> 3
                     | ByteEncoder \<Rightarrow> 3 | KanjiEncoder \<Rightarrow> 2),
     number_of_data_bits = (\<lambda>l. case l of Level_M \<Rightarrow> 48 | Level_H \<Rightarrow> 24)\<rparr>"

definition sample_versions :: "string \<rightharpoonup> rmqr_version" where
  "sample_versions = [''R7x43'' \<mapsto> R7x43]"

definition tie_version :: rmqr_version where
  "tie_version = \<lparr>character_count_indicator_length =
       (\<lambda>e. case e of NumericEncoder \<Rightarrow> 4 | AlphanumericEncoder \<Rightarrow> 2
                     | ByteEncoder \<Rightarrow> 3 | KanjiEncoder \<Rightarrow> 2),
     number_of_data_bits = (\<lambda>l. case l of Level_M \<Rightarrow> 48 | Level_H \<Rightarrow> 24)\<rparr>"

definition no_kanji :: "uchar \<Rightarrow> bool" where
  "no_kanji c = False"

subsection \<open>Segmentations and their cost\<close>

text \<open>The total bit length of a list of segments under the widths of a version entry, as
  \<open>compute_length\<close> computes it once the entry is found.\<close>

definition segment_length :: "rmqr_version \<Rightarrow> Segment \<Rightarrow> int" where
  "segment_length v s =
     encoder_length (encoder_class s) (data s) (character_count_indicator_length v (encoder_class s))"

definition total_length :: "rmqr_version \<Rightarrow> Segment list \<Rightarrow> int" where
  "total_length v segments = sum_list (map (segment_length v) segments)"

text \<open>A valid mode partition of a text: segments whose data, concatenated in order, is the text,
  every segment holding only characters its encoder class accepts. Empty segments and
  neighbouring segments of the same class are allowed.\<close>

definition valid_partition :: "(uchar \<Rightarrow> bool) \<Rightarrow> ustring \<Rightarrow> Segment list \<Rightarrow> bool" where
  "valid_partition kanji input segments \<longleftrightarrow>
     concat (map data segments) = input \<and>
     (\<forall>s\<in>set segments. is_valid_characters kanji (encoder_class s) (data s))"

text \<open>The requirements on a version entry: no width is negative; and, for the texts of digits,
  the Numeric width exceeds the Alphanumeric width by at most 1 and the Byte width by at
  most 3.\<close>

definition table_ok :: "rmqr_version \<Rightarrow> bool" where
  "table_ok v \<longleftrightarrow> (\<forall>e\<in>set encoders. 0 \<le> character_count_indicator_length v e)"

definition numeric_favoured :: "rmqr_version \<Rightarrow> bool" where
  "numeric_favoured v \<longleftrightarrow>
     character_count_indicator_length v NumericEncoder
       \<le> character_count_indicator_length v AlphanumericEncoder + 1 \<and>
     character_count_indicator_length v NumericEncoder
       \<le> character_count_indicator_length v ByteEncoder + 3"

text \<open>The empty-header cost of a mode, the index of an encoder class in \<open>encoders\<close>, and
  the unfilled length that belongs to a run of \<open>k\<close> characters of one mode.\<close>

definition header :: "rmqr_version \<Rightarrow> encoder \<Rightarrow> int" where
  "header v e = encoder_length e [] (character_count_indicator_length v e)"

fun mode_of :: "encoder \<Rightarrow> nat" where
  "mode_of NumericEncoder = 0"
| "mode_of AlphanumericEncoder = 1"
| "mode_of ByteEncoder = 2"
| "mode_of KanjiEncoder = 3"

fun phase :: "encoder \<Rightarrow> nat \<Rightarrow> nat" where
  "phase NumericEncoder k = k mod 3"
| "phase AlphanumericEncoder k = k mod 2"
| "phase ByteEncoder k = 0"
| "phase KanjiEncoder k = 0"

text \<open>A text with one mode for each character, the last character first. \<open>run e ys\<close> is
  the data of the run of mode \<open>e\<close> that ends the text, and \<open>rcost\<close> is the bit length
  of the segments that merging equal neighbours gives, accumulated character by character:
  a character that opens a run pays a segment of one character, a character that extends a
  run pays the difference of the two segment lengths.\<close>

definition run :: "encoder \<Rightarrow> (encoder \<times> uchar) list \<Rightarrow> ustring" where
  "run e ys = rev (map snd (takeWhile (\<lambda>z. fst z = e) ys))"

fun rcost :: "rmqr_version \<Rightarrow> (encoder \<times> uchar) list \<Rightarrow> int" where
  "rcost v [] = 0"
| "rcost v (z # ys) =
     rcost v ys +
       (if run (fst z) ys = []
        then encoder_length (fst z) [snd z] (character_count_indicator_length v (fst z))
        else encoder_length (fst z) (run (fst z) ys @ [snd z]) (character_count_indicator_length v (fst z))
           - encoder_length (fst z) (run (fst z) ys) (character_count_indicator_length v (fst z)))"

definition tag :: "Segment list \<Rightarrow> (encoder \<times> uchar) list" where
  "tag segments = concat (map (\<lambda>s. map (Pair (encoder_class s)) (data s)) segments)"


subsection \<open>Invariants of the tables\<close>

text \<open>\<open>cell_info\<close>: the cell \<open>(k, m, u)\<close> was written by a relaxation from a cell of the
  row before, whose index is the parent pointer. \<open>step_rel\<close>: what a relaxation at
  position \<open>n\<close> may change. \<open>hit\<close>: the candidate transition from \<open>(n, m, u)\<close> into mode
  \<open>m'\<close> has been taken into account. \<open>dp_inv\<close>: the tables after the positions below
  \<open>j\<close> have been relaxed, starting from a fresh optimizer.\<close>

definition cell_info ::
  "(uchar \<Rightarrow> bool) \<Rightarrow> rmqr_version \<Rightarrow> ustring \<Rightarrow> optimizer \<Rightarrow> nat \<Rightarrow> nat \<Rightarrow> nat \<Rightarrow> bool" where
  "cell_info kanji v input s k m u \<longleftrightarrow>
     (\<exists>m' u'. m' < 4 \<and> u' < 3 \<and> parents s (k, m, u) = (int (k - 1), int m', int u') \<and>
        dp s (k - 1, m', u') \<noteq> INF_value \<and>
        is_valid_characters kanji (encoders ! m) [input ! (k - 1)] \<and>
        snd (new_state v (input ! (k - 1)) m' u' m) = u \<and>
        dp s (k, m, u) = dp s (k - 1, m', u') + fst (new_state v (input ! (k - 1)) m' u' m))"

definition step_rel ::
  "(uchar \<Rightarrow> bool) \<Rightarrow> rmqr_version \<Rightarrow> ustring \<Rightarrow> nat \<Rightarrow> optimizer \<Rightarrow> optimizer \<Rightarrow> bool" where
  "step_rel kanji v input n s s' \<longleftrightarrow>
     (\<forall>c. fst c \<noteq> Suc n \<longrightarrow> dp s' c = dp s c \<and> parents s' c = parents s c) \<and>
     (\<forall>c. dp s' c \<le> dp s c) \<and>
     (\<forall>m u. (dp s' (Suc n, m, u) = dp s (Suc n, m, u) \<and>
             parents s' (Suc n, m, u) = parents s (Suc n, m, u))
            \<or> cell_info kanji v input s' (Suc n) m u)"

definition hit ::
  "(uchar \<Rightarrow> bool) \<Rightarrow> rmqr_version \<Rightarrow> ustring \<Rightarrow> nat \<Rightarrow> optimizer \<Rightarrow> optimizer \<Rightarrow> nat \<Rightarrow> nat \<Rightarrow> nat \<Rightarrow> bool" where
  "hit kanji v input n b s m u m' \<longleftrightarrow>
     (dp b (n, m, u) \<noteq> INF_value \<longrightarrow>
      is_valid_characters kanji (encoders ! m') [input ! n] \<longrightarrow>
      dp s (Suc n, m', snd (new_state v (input ! n) m u m'))
        \<le> dp b (n, m, u) + fst (new_state v (input ! n) m u m'))"

definition dp_inv ::
  "(uchar \<Rightarrow> bool) \<Rightarrow> rmqr_version \<Rightarrow> ustring \<Rightarrow> nat \<Rightarrow> optimizer \<Rightarrow> bool" where
  "dp_inv kanji v input j s \<longleftrightarrow>
     (\<forall>m<4. dp s (0, m, 0) = header v (encoders ! m)) \<and>
     (\<forall>m u. 0 < u \<longrightarrow> dp s (0, m, u) = INF_value) \<and>
     (\<forall>k m u. j < k \<longrightarrow> dp s (k, m, u) = INF_value) \<and>
     (\<forall>k m u. 0 < k \<longrightarrow> k \<le> j \<longrightarrow> m < 4 \<longrightarrow> u < 3 \<longrightarrow>
        dp s (k, m, u) = INF_value \<or> cell_info kanji v input s k m u) \<and>
     (\<forall>n m u m'. n < j \<longrightarrow> m < 4 \<longrightarrow> u < 3 \<longrightarrow> m' < 4 \<longrightarrow> hit kanji v input n s s m u m')"

text \<open>The indices that \<open>_reconstruct_path\<close> visits from a cell of row \<open>k\<close>, the modes and
  characters along a path, and the invariant of the accumulators of \<open>_compute_segments\<close>.\<close>

fun descend :: "optimizer \<Rightarrow> nat \<Rightarrow> index \<Rightarrow> index list" where
  "descend s 0 i = []"
| "descend s (Suc k) i =
     i # descend s k (parents s (nat (fst i), nat (fst (snd i)), nat (snd (snd i))))"

definition path_tags :: "ustring \<Rightarrow> index list \<Rightarrow> (encoder \<times> uchar) list" where
  "path_tags input path = map (\<lambda>p. (encoders ! nat (fst (snd p)), input ! nat (fst p - 1))) path"

definition step_ok :: "ustring \<Rightarrow> index \<Rightarrow> bool" where
  "step_ok input p \<longleftrightarrow> 1 \<le> fst p \<and> fst p \<le> int (length input) \<and> 0 \<le> fst (snd p) \<and> fst (snd p) < 4"

definition acc_ok ::
  "(uchar \<Rightarrow> bool) \<Rightarrow> rmqr_version \<Rightarrow> (encoder \<times> uchar) list \<Rightarrow> Segment list \<Rightarrow> ustring \<Rightarrow> int \<Rightarrow> bool" where
  "acc_ok kanji v ys segments current_segment_data current_mode \<longleftrightarrow>
     (if ys = [] then segments = [] \<and> current_segment_data = [] \<and> current_mode = -1
      else current_mode = int (mode_of (fst (hd ys))) \<and>
           current_segment_data = run (fst (hd ys)) ys \<and>
           total_length v segments
             + encoder_length (fst (hd ys)) current_segment_data
                 (character_count_indicator_length v (fst (hd ys))) = rcost v ys \<and>
           concat (map data segments) @ current_segment_data = map snd (rev ys) \<and>
           (\<forall>s\<in>set segments. is_valid_characters kanji (encoder_class s) (data s)))"

section \<open>Basic facts about the model\<close>

lemma upt_4: "[0..<4] = [0, 1, 2, 3]"
  by (simp add: upt_rec)

lemma upt_3: "[0..<3] = [0, 1, 2]"
  by (simp add: upt_rec)

lemma length_encoders: "length encoders = 4"
  by (simp add: encoders_def)

lemma encoders_nth:
  "encoders ! 0 = NumericEncoder" "encoders ! Suc 0 = AlphanumericEncoder"
  "encoders ! 2 = ByteEncoder" "encoders ! 3 = KanjiEncoder"
  by (simp_all add: encoders_def eval_nat_numeral)

lemma base_case_dp:
  "dp (base_case v self) c =
     (if fst c = 0 \<and> fst (snd c) < 4 \<and> snd (snd c) = 0
      then encoder_length (encoders ! fst (snd c)) [] (character_count_indicator_length v (encoders ! fst (snd c)))
      else dp self c)"
  by (cases c) (auto simp add: base_case_def length_encoders upt_4)

lemma base_case_parents:
  "parents (base_case v self) c =
     (if fst c = 0 \<and> fst (snd c) < 4 \<and> snd (snd c) = 0 then (0, 0, 0) else parents self c)"
  by (cases c) (auto simp add: base_case_def length_encoders upt_4)

lemma base_case_qr_version: "qr_version (base_case v self) = qr_version self"
  by (simp add: base_case_def length_encoders upt_4)

subsection \<open>The byte encoder\<close>

lemma length_bin_digits_le: "length (bin_digits n) \<le> k \<longleftrightarrow> 0 < k \<and> n < 2 ^ k"
proof (induction n arbitrary: k rule: bin_digits.induct)
  case (1 n)
  show ?case
  proof (cases "n < 2")
    case True
    have "n < 2 ^ k" if "0 < k"
    proof -
      have "(2::nat) ^ 1 \<le> 2 ^ k" using that by (intro power_increasing) auto
      with True show ?thesis by simp
    qed
    with True show ?thesis
      by (subst bin_digits.simps) (auto simp: Suc_le_eq)
  next
    case False
    have len: "length (bin_digits n) = Suc (length (bin_digits (n div 2)))"
      using False by (subst bin_digits.simps) simp
    show ?thesis
    proof (cases k)
      case 0
      then show ?thesis by (simp add: len)
    next
      case (Suc j)
      have "length (bin_digits (n div 2)) \<le> j \<longleftrightarrow> 0 < j \<and> n div 2 < 2 ^ j"
        using "1.IH" [OF False] .
      moreover have "n div 2 < 2 ^ j \<longleftrightarrow> n < 2 ^ Suc j"
        by (simp add: less_mult_imp_div_less div_less_iff_less_mult mult.commute)
      moreover have "0 < j" if "n < 2 ^ Suc j"
        using that False by (cases j) auto
      ultimately show ?thesis
        using Suc by (auto simp: len)
    qed
  qed
qed

lemma length_zfill: "int (length (zfill s w)) = max (int (length s)) w"
  by (simp add: zfill_def)

lemma utf8_byte: "b \<in> set (utf8 c) \<Longrightarrow> b < 256"
  by (auto simp: utf8_def split: if_splits)

lemma length_zfill_byte: "b < 256 \<Longrightarrow> length (zfill (bin_digits b) 8) = 8"
proof -
  assume "b < 256"
  then have "length (bin_digits b) \<le> 8"
    by (simp add: length_bin_digits_le)
  moreover have "0 < length (bin_digits b)"
    by (subst bin_digits.simps) simp
  ultimately show ?thesis
    by (simp add: zfill_def)
qed

lemma foldl_append_concat: "foldl (\<lambda>res x. res @ f x) acc xs = acc @ concat (map f xs)"
  by (induction xs arbitrary: acc) simp_all

lemma length_concat_const:
  "(\<And>x. x \<in> set xs \<Longrightarrow> length (f x) = k) \<Longrightarrow> length (concat (map f xs)) = k * length xs"
  by (induction xs) simp_all

lemma encode_utf8_byte: "b \<in> set (encode_utf8 s) \<Longrightarrow> b < 256"
  by (auto simp: encode_utf8_def dest: utf8_byte)

lemma length_encoded_bits: "length (ByteEncoder_encoded_bits s) = 8 * length (encode_utf8 s)"
  unfolding ByteEncoder_encoded_bits_def foldl_append_concat
  by (simp add: length_concat_const length_zfill_byte encode_utf8_byte)

lemma length_ByteEncoder_encode:
  "int (length (ByteEncoder_encode input w)) =
     3 + max (int (length (bin_digits (length input)))) w + 8 * int (length (encode_utf8 input))"
  by (simp add: ByteEncoder_encode_def length_encoded_bits length_zfill)

subsection \<open>\_find\_best returns the first minimum\<close>

lemma keys12_eq: "keys12 = [(0,0),(0,1),(0,2),(1,0),(1,1),(1,2),(2,0),(2,1),(2,2),(3,0),(3,1),(3,2)]"
  unfolding keys12_def by (simp add: upt_rec)

lemma nested_fold_keys12:
  "fold (\<lambda>mode. fold (f mode) [0..<3]) [0..<4] s = fold (\<lambda>k. f (fst k) (snd k)) keys12 s"
  by (simp add: keys12_eq upt_4 upt_3)

lemma fold_first_min:
  assumes "fold (\<lambda>k (b, i). if val k < b then (val k, idx k) else (b, i)) ks (b0 :: int, i0) = (b, i)"
  shows "b \<le> b0 \<and> (\<forall>k\<in>set ks. b \<le> val k) \<and>
         (if b = b0 then i = i0
          else \<exists>j<length ks. val (ks ! j) = b \<and> i = idx (ks ! j) \<and> (\<forall>j'<j. b < val (ks ! j')))"
  using assms
proof (induction ks arbitrary: b0 i0)
  case Nil
  then show ?case by simp
next
  case (Cons k ks)
  show ?case
  proof (cases "val k < b0")
    case True
    with Cons.prems have f: "fold (\<lambda>k (b, i). if val k < b then (val k, idx k) else (b, i)) ks (val k, idx k) = (b, i)"
      by simp
    note ih = Cons.IH [OF f]
    show ?thesis
    proof (cases "b = val k")
      case True
      with ih \<open>val k < b0\<close> show ?thesis by (auto intro!: exI [of _ 0])
    next
      case False
      with ih obtain j where j: "j < length ks" "val (ks ! j) = b" "i = idx (ks ! j)" "\<forall>j'<j. b < val (ks ! j')"
        by auto
      from ih False have "b < val k" by auto
      with j have "\<forall>j'<Suc j. b < val ((k # ks) ! j')"
        by (auto simp: less_Suc_eq_0_disj)
      with j have "\<exists>j<length (k # ks). val ((k # ks) ! j) = b \<and> i = idx ((k # ks) ! j) \<and> (\<forall>j'<j. b < val ((k # ks) ! j'))"
        by (intro exI [of _ "Suc j"]) simp
      with ih \<open>val k < b0\<close> \<open>b < val k\<close> show ?thesis by auto
    qed
  next
    case False
    with Cons.prems have f: "fold (\<lambda>k (b, i). if val k < b then (val k, idx k) else (b, i)) ks (b0, i0) = (b, i)"
      by simp
    note ih = Cons.IH [OF f]
    show ?thesis
    proof (cases "b = b0")
      case True
      with ih False show ?thesis by auto
    next
      case nb: False
      with ih obtain j where j: "j < length ks" "val (ks ! j) = b" "i = idx (ks ! j)" "\<forall>j'<j. b < val (ks ! j')"
        by auto
      from ih nb False have "b < val k" by auto
      with j have "\<forall>j'<Suc j. b < val ((k # ks) ! j')"
        by (auto simp: less_Suc_eq_0_disj)
      with j have "\<exists>j<length (k # ks). val ((k # ks) ! j) = b \<and> i = idx ((k # ks) ! j) \<and> (\<forall>j'<j. b < val ((k # ks) ! j'))"
        by (intro exI [of _ "Suc j"]) simp
      with ih nb \<open>b < val k\<close> show ?thesis by auto
    qed
  qed
qed

lemma find_best_fold:
  "(cost (find_best self input), index (find_best self input)) =
     fold (\<lambda>k (b, i). if dp self (length input, fst k, snd k) < b
                        then (dp self (length input, fst k, snd k), (int (length input), int (fst k), int (snd k)))
                        else (b, i)) keys12 (INF_value, (-1, -1, -1))"
  unfolding find_best_def nested_fold_keys12
  by (simp add: case_prod_beta)

lemma keys12_nth: "j < 12 \<Longrightarrow> keys12 ! j = (j div 3, j mod 3)"
  by (simp add: keys12_def)

lemma keys12_index: "mode < 4 \<Longrightarrow> u < 3 \<Longrightarrow> keys12 ! (3 * mode + u) = (mode, u)"
  by (simp add: keys12_nth)

lemma length_keys12: "length keys12 = 12"
  by (simp add: keys12_def)

lemma lex_less: "m < q \<or> (q = m \<and> u < r) \<Longrightarrow> u < 3 \<Longrightarrow> 3 * m + u < 3 * q + (r::nat)"
  by auto

lemma find_best_cases:
  obtains (none) "cost (find_best self input) = INF_value" "index (find_best self input) = (-1, -1, -1)"
      "\<And>mode u. mode < 4 \<Longrightarrow> u < 3 \<Longrightarrow> INF_value \<le> dp self (length input, mode, u)"
  | (some) mode u where "mode < 4" "u < 3"
      "index (find_best self input) = (int (length input), int mode, int u)"
      "cost (find_best self input) = dp self (length input, mode, u)"
      "cost (find_best self input) < INF_value"
      "\<And>mode' u'. mode' < 4 \<Longrightarrow> u' < 3 \<Longrightarrow>
          cost (find_best self input) \<le> dp self (length input, mode', u')"
      "\<And>mode' u'. mode' < 4 \<Longrightarrow> u' < 3 \<Longrightarrow>
          dp self (length input, mode', u') = cost (find_best self input) \<Longrightarrow>
          mode < mode' \<or> (mode = mode' \<and> u \<le> u')"
proof -
  let ?val = "\<lambda>k. dp self (length input, fst k, snd k)"
  let ?idx = "\<lambda>k. (int (length input), int (fst k), int (snd k))"
  let ?b = "cost (find_best self input)" and ?i = "index (find_best self input)"
  have "fold (\<lambda>k (b, i). if ?val k < b then (?val k, ?idx k) else (b, i)) keys12 (INF_value, (-1, -1, -1)) = (?b, ?i)"
    by (simp add: find_best_fold)
  note fm = fold_first_min [of ?val ?idx, OF this]
  have all: "?b \<le> dp self (length input, mode', u')" if "mode' < 4" "u' < 3" for mode' u'
  proof -
    have "3 * mode' + u' < length keys12" using that by (simp add: length_keys12)
    then have "keys12 ! (3 * mode' + u') \<in> set keys12" by (rule nth_mem)
    with fm have "?b \<le> ?val (keys12 ! (3 * mode' + u'))" by blast
    then show ?thesis using that by (simp add: keys12_index)
  qed
  show thesis
  proof (cases "?b = INF_value")
    case True
    with fm have "?i = (-1, -1, -1)" by simp
    with True all show thesis by (intro none) auto
  next
    case False
    with fm obtain j where j: "j < length keys12" "?val (keys12 ! j) = ?b" "?i = ?idx (keys12 ! j)"
        "\<forall>j'<j. ?b < ?val (keys12 ! j')"
      by auto
    from j(1) have j12: "j < 12" by (simp add: length_keys12)
    have first: "j div 3 < mode' \<or> (j div 3 = mode' \<and> j mod 3 \<le> u')"
      if "mode' < 4" "u' < 3" "dp self (length input, mode', u') = ?b" for mode' u'
    proof (rule ccontr)
      assume "\<not> ?thesis"
      then have "mode' < j div 3 \<or> (j div 3 = mode' \<and> u' < j mod 3)" by auto
      then have "3 * mode' + u' < 3 * (j div 3) + j mod 3" using that(2) by (rule lex_less)
      then have "3 * mode' + u' < j" by simp
      with j(4) have "?b < ?val (keys12 ! (3 * mode' + u'))" by blast
      then show False using that by (simp add: keys12_index)
    qed
    from fm False have "?b < INF_value" by simp
    with j j12 all first show thesis
      by (intro some [of "j div 3" "j mod 3"]) (simp_all add: keys12_nth)
  qed
qed

subsection \<open>Exceptions of the path reconstruction and of the merge\<close>

lemma py_index_error: "py_index len i = Inl e \<Longrightarrow> e = IndexError"
  by (simp add: py_index_def Let_def split: if_splits)

lemma parents_at_error: "parents_at self i = Inl e \<Longrightarrow> e = IndexError"
  by (auto simp: parents_at_def split: prod.splits sum.splits dest: py_index_error)

lemma char_at_error: "char_at input i = Inl e \<Longrightarrow> e = IndexError"
  by (auto simp: char_at_def split: sum.splits dest: py_index_error)

lemma encoder_at_error: "encoder_at m = Inl e \<Longrightarrow> e = IndexError"
  by (auto simp: encoder_at_def split: sum.splits dest: py_index_error)

lemma reconstruct_loop_error_aux:
  assumes "reconstruct_loop self i path = Some r"
  shows "\<forall>e. r = Inl e \<longrightarrow> e = IndexError"
proof (rule reconstruct_loop.raw_induct
    [where P = "\<lambda>self i path r. \<forall>e. r = Inl e \<longrightarrow> e = IndexError", OF _ assms])
  fix rl self i path r
  assume "\<And>self i path r. rl self i path = Some r \<Longrightarrow> \<forall>e. r = Inl e \<longrightarrow> e = IndexError"
    and "(if fst i = 0 then Some (Inr path)
          else case parents_at self i of Inl e \<Rightarrow> Some (Inl e)
               | Inr p \<Rightarrow> rl self p (path @ [i])) = Some r"
  then show "\<forall>e. r = Inl e \<longrightarrow> e = IndexError"
    by (auto split: if_splits sum.splits dest: parents_at_error)
qed

lemma reconstruct_loop_error:
  "reconstruct_loop self i path = Some (Inl e) \<Longrightarrow> e = IndexError"
  using reconstruct_loop_error_aux by blast

lemma reconstruct_path_error:
  "reconstruct_path self i = Some (Inl e) \<Longrightarrow> e = IndexError"
proof -
  assume "reconstruct_path self i = Some (Inl e)"
  then obtain r where "reconstruct_loop self i [] = Some r" "map_sum id rev r = Inl e"
    by (auto simp: reconstruct_path_def)
  then show ?thesis
    by (cases r) (auto dest: reconstruct_loop_error)
qed

lemma segments_loop_error:
  "segments_loop path input segs cur m = Inl e \<Longrightarrow> e = IndexError"
proof (induction path input segs cur m rule: segments_loop.induct)
  case 1
  then show ?case by simp
next
  case (2 p path input segments cur m)
  then show ?case
    by (auto split: if_splits sum.splits dest: char_at_error encoder_at_error)
qed

lemma compute_segments_error: "compute_segments path input = Inl e \<Longrightarrow> e = IndexError"
  by (auto simp: compute_segments_def split: sum.splits prod.splits if_splits
      dest: segments_loop_error encoder_at_error)

subsection \<open>One relaxation step, the empty input\<close>

lemma relax_eq:
  "relax kanji v input n mode u new_mode self =
     (if is_valid_characters kanji (encoders ! new_mode) [input ! n] \<and>
         dp self (n, mode, u) + fst (new_state v (input ! n) mode u new_mode)
           < dp self (n + 1, new_mode, snd (new_state v (input ! n) mode u new_mode))
      then self\<lparr>dp := (dp self)((n + 1, new_mode, snd (new_state v (input ! n) mode u new_mode)) :=
                     dp self (n, mode, u) + fst (new_state v (input ! n) mode u new_mode)),
                parents := (parents self)((n + 1, new_mode, snd (new_state v (input ! n) mode u new_mode)) :=
                     (int n, int mode, int u))\<rparr>
      else self)"
  unfolding relax_def new_state_def by (simp add: case_prod_beta Let_def)

lemma encoder_index: "\<exists>mode<4. encoders ! mode = e"
proof (cases e)
  case NumericEncoder
  then show ?thesis by (intro exI [of _ 0]) (simp add: encoders_nth)
next
  case AlphanumericEncoder
  then show ?thesis by (intro exI [of _ "Suc 0"]) (simp add: encoders_nth)
next
  case ByteEncoder
  then show ?thesis by (intro exI [of _ 2]) (simp add: encoders_nth)
next
  case KanjiEncoder
  then show ?thesis by (intro exI [of _ 3]) (simp add: encoders_nth)
qed

lemma compute_costs_Nil: "compute_costs kanji v [] self = base_case v self"
  by (simp add: compute_costs_def)

lemma reconstruct_path_root: "reconstruct_path self (0, m, u) = Some (Inr [])"
  by (simp add: reconstruct_path_def reconstruct_loop.simps)

lemma compute_segments_Nil: "compute_segments [] input = Inr []"
  by (simp add: compute_segments_def)

lemma base_case_reset:
  assumes "\<And>c. \<not> (fst c = 0 \<and> fst (snd c) < 4 \<and> snd (snd c) = 0) \<Longrightarrow> dp s c = dp t c \<and> parents s c = parents t c"
  shows "base_case v (s\<lparr>qr_version := q\<rparr>) = base_case v (t\<lparr>qr_version := q\<rparr>)"
proof -
  have "dp (base_case v (s\<lparr>qr_version := q\<rparr>)) = dp (base_case v (t\<lparr>qr_version := q\<rparr>))"
    using assms by (auto simp: fun_eq_iff base_case_dp)
  moreover have "parents (base_case v (s\<lparr>qr_version := q\<rparr>)) = parents (base_case v (t\<lparr>qr_version := q\<rparr>))"
    using assms by (auto simp: fun_eq_iff base_case_parents)
  moreover have "qr_version (base_case v (s\<lparr>qr_version := q\<rparr>)) = qr_version (base_case v (t\<lparr>qr_version := q\<rparr>))"
    by (simp add: base_case_qr_version)
  ultimately show ?thesis by simp
qed

lemma compute_same_tables:
  assumes "base_case v (s\<lparr>qr_version := Some v\<rparr>) = base_case v (t\<lparr>qr_version := Some v\<rparr>)"
    and "rMQRVersions version = Some v"
  shows "map_option fst (compute kanji rMQRVersions s input version ecc)
       = map_option fst (compute kanji rMQRVersions t input version ecc)"
proof -
  have "compute_costs kanji v input (s\<lparr>qr_version := Some v\<rparr>)
      = compute_costs kanji v input (t\<lparr>qr_version := Some v\<rparr>)"
    using assms(1) by (simp add: compute_costs_def)
  then show ?thesis
    using assms(2) by (simp add: compute_def Let_def split: option.splits sum.splits)
qed


section \<open>Encoder lengths and step costs\<close>

lemma table_ok_nonneg: "table_ok v \<Longrightarrow> 0 \<le> character_count_indicator_length v e"
  by (cases e) (simp_all add: table_ok_def encoders_def)

lemma mode_of_less: "mode_of e < 4"
  by (cases e) simp_all

lemma encoders_mode_of: "encoders ! mode_of e = e"
  by (cases e) (simp_all add: encoders_nth)

lemma mode_of_encoders: "m < 4 \<Longrightarrow> mode_of (encoders ! m) = m"
proof -
  assume "m < 4"
  then consider "m = 0" | "m = Suc 0" | "m = 2" | "m = 3" by linarith
  then show ?thesis by cases (simp_all add: encoders_nth)
qed

lemma phase_less: "phase e k < 3"
  by (cases e) simp_all

lemma length_encode_utf8_append:
  "length (encode_utf8 (a @ b)) = length (encode_utf8 a) + length (encode_utf8 b)"
  by (simp add: encode_utf8_def)

lemma encoder_length_header:
  "encoder_length e s w = 3 + w + (encoder_length e s 0 - 3)"
  by (cases e)
    (simp_all add: NumericEncoder_length_def AlphanumericEncoder_length_def
      ByteEncoder_length_def KanjiEncoder_length_def)

lemma header_eq: "header v e = 3 + character_count_indicator_length v e"
  by (cases e)
    (simp_all add: header_def NumericEncoder_length_def AlphanumericEncoder_length_def
      ByteEncoder_length_def KanjiEncoder_length_def encode_utf8_def)

lemma div3_bounds: "3 * (a div 3) \<le> a \<and> a \<le> 3 * (a div 3) + (2::int)"
  by linarith

lemma div2_bounds: "2 * (a div 2) \<le> a \<and> a \<le> 2 * (a div 2) + (1::int)"
  by linarith

lemma NumericEncoder_length_closed:
  "NumericEncoder_length s w = 3 + w + (10 * int (length s) + 2) div 3"
proof -
  define n q i where "n = length s" and "q = n div 3" and "i = n mod 3"
  have n: "n = 3 * q + i" and i: "i = 0 \<or> i = 1 \<or> i = 2"
    by (auto simp: q_def i_def)
  have "NumericEncoder_length s w = 3 + w + 10 * int q + (if i = 0 then 0 else if i = 1 then 4 else 7)"
    by (simp add: NumericEncoder_length_def q_def i_def n_def)
  moreover have "(10 * int n + 2) div 3 = 10 * int q + (if i = 0 then 0 else if i = 1 then 4 else 7)"
    using i unfolding n by auto
  ultimately show ?thesis by (simp add: n_def)
qed

lemma AlphanumericEncoder_length_closed:
  "AlphanumericEncoder_length s w = 3 + w + (11 * int (length s) + 1) div 2"
proof -
  define n q i where "n = length s" and "q = n div 2" and "i = n mod 2"
  have n: "n = 2 * q + i" and i: "i = 0 \<or> i = 1"
    by (auto simp: q_def i_def)
  have "AlphanumericEncoder_length s w = 3 + w + 11 * int q + 6 * int i"
    by (simp add: AlphanumericEncoder_length_def q_def i_def n_def)
  moreover have "(11 * int n + 1) div 2 = 11 * int q + 6 * int i"
    using i unfolding n by auto
  ultimately show ?thesis by (simp add: n_def)
qed

lemma numeric_step:
  "NumericEncoder_length (r @ [c]) w - NumericEncoder_length r w
     = (if length r mod 3 = 0 then 4 else 3)"
proof -
  have "length r mod 3 = 0 \<or> length r mod 3 = 1 \<or> length r mod 3 = 2" by linarith
  then show ?thesis
    by (auto simp: NumericEncoder_length_def div_Suc mod_Suc)
qed

lemma alphanumeric_step:
  "AlphanumericEncoder_length (r @ [c]) w - AlphanumericEncoder_length r w
     = (if length r mod 2 = 0 then 6 else 5)"
proof -
  have "length r mod 2 = 0 \<or> length r mod 2 = 1" by linarith
  then show ?thesis
    by (auto simp: AlphanumericEncoder_length_def div_Suc mod_Suc)
qed

lemma same_mode_step:
  assumes "m < 4"
  shows "compute_new_state_without_mode_changing c m (phase (encoders ! m) (length r))
       = (encoder_length (encoders ! m) (r @ [c]) w - encoder_length (encoders ! m) r w,
          phase (encoders ! m) (Suc (length r)))"
proof -
  from assms consider "m = 0" | "m = Suc 0" | "m = 2" | "m = 3" by linarith
  then show ?thesis
  proof cases
    case 1
    then show ?thesis
      by (simp add: compute_new_state_without_mode_changing.simps encoders_nth numeric_step mod_Suc_eq)
  next
    case 2
    then show ?thesis
      by (simp add: compute_new_state_without_mode_changing.simps encoders_nth alphanumeric_step mod_Suc_eq)
  next
    case 3
    then show ?thesis
      by (simp add: compute_new_state_without_mode_changing.simps encoders_nth ByteEncoder_length_def
          length_encode_utf8_append)
  next
    case 4
    then show ?thesis
      by (simp add: compute_new_state_without_mode_changing.simps encoders_nth KanjiEncoder_length_def)
  qed
qed

lemma mode_change_step:
  assumes "m < 4"
  shows "compute_new_state_with_mode_changing v c m u
       = (encoder_length (encoders ! m) [c] (character_count_indicator_length v (encoders ! m)),
          phase (encoders ! m) (Suc 0))"
proof -
  from assms consider "m = 0" | "m = Suc 0" | "m = 2" | "m = 3" by linarith
  then show ?thesis
    by cases (simp_all add: compute_new_state_with_mode_changing.simps encoders_nth Let_def)
qed

declare compute_new_state_without_mode_changing.simps [simp del]
declare compute_new_state_with_mode_changing.simps [simp del]

lemma phase_0: "phase e 0 = 0"
  by (cases e) simp_all

lemma encoder_length_snoc_ge: "encoder_length e r w \<le> encoder_length e (r @ [c]) w"
proof (cases e)
  case NumericEncoder
  then show ?thesis using numeric_step [of r c w] by (simp split: if_splits)
next
  case AlphanumericEncoder
  then show ?thesis using alphanumeric_step [of r c w] by (simp split: if_splits)
next
  case ByteEncoder
  then show ?thesis by (simp add: ByteEncoder_length_def length_encode_utf8_append)
next
  case KanjiEncoder
  then show ?thesis by (simp add: KanjiEncoder_length_def)
qed

lemma encoder_length_ge_header: "encoder_length e [] w \<le> encoder_length e r w"
proof (induction r rule: rev_induct)
  case Nil
  show ?case by simp
next
  case (snoc c r)
  then show ?case using encoder_length_snoc_ge [of e r w c] by linarith
qed

lemma numeric_subadditive:
  "NumericEncoder_length (a @ b) w \<le> NumericEncoder_length a w + NumericEncoder_length b 0 - 3"
proof -
  define x y z where "x = (10 * int (length a) + 2) div 3" and "y = (10 * int (length b) + 2) div 3"
    and "z = (10 * (int (length a) + int (length b)) + 2) div 3"
  have "3 * x \<le> 10 * int (length a) + 2 \<and> 10 * int (length a) + 2 \<le> 3 * x + 2"
    "3 * y \<le> 10 * int (length b) + 2 \<and> 10 * int (length b) + 2 \<le> 3 * y + 2"
    "3 * z \<le> 10 * (int (length a) + int (length b)) + 2
       \<and> 10 * (int (length a) + int (length b)) + 2 \<le> 3 * z + 2"
    unfolding x_def y_def z_def by (rule div3_bounds)+
  then have "3 * z < 3 * (x + y + 1)" by auto
  then have "z < x + y + 1" by (simp only: mult_less_cancel_left_pos)
  then show ?thesis
    by (simp add: NumericEncoder_length_closed x_def y_def z_def)
qed

lemma alphanumeric_subadditive:
  "AlphanumericEncoder_length (a @ b) w
     \<le> AlphanumericEncoder_length a w + AlphanumericEncoder_length b 0 - 3"
proof -
  define x y z where "x = (11 * int (length a) + 1) div 2" and "y = (11 * int (length b) + 1) div 2"
    and "z = (11 * (int (length a) + int (length b)) + 1) div 2"
  have "2 * x \<le> 11 * int (length a) + 1 \<and> 11 * int (length a) + 1 \<le> 2 * x + 1"
    "2 * y \<le> 11 * int (length b) + 1 \<and> 11 * int (length b) + 1 \<le> 2 * y + 1"
    "2 * z \<le> 11 * (int (length a) + int (length b)) + 1
       \<and> 11 * (int (length a) + int (length b)) + 1 \<le> 2 * z + 1"
    unfolding x_def y_def z_def by (rule div2_bounds)+
  then have "2 * z < 2 * (x + y + 1)" by auto
  then have "z < x + y + 1" by (simp only: mult_less_cancel_left_pos)
  then show ?thesis
    by (simp add: AlphanumericEncoder_length_closed x_def y_def z_def)
qed

lemma encoder_length_append_le:
  "encoder_length e (a @ b) w \<le> encoder_length e a w + encoder_length e b 0 - 3"
proof (cases e)
  case NumericEncoder
  then show ?thesis by (simp add: numeric_subadditive)
next
  case AlphanumericEncoder
  then show ?thesis by (simp add: alphanumeric_subadditive)
next
  case ByteEncoder
  then show ?thesis by (simp add: ByteEncoder_length_def length_encode_utf8_append)
next
  case KanjiEncoder
  then show ?thesis by (simp add: KanjiEncoder_length_def)
qed

section \<open>The relaxation of one position\<close>

lemma fold_rel_hits:
  assumes refl: "\<And>s. R s s" and trans: "\<And>s s' s''. R s s' \<Longrightarrow> R s' s'' \<Longrightarrow> R s s''"
    and step: "\<And>x s. x \<in> set xs \<Longrightarrow> R b s \<Longrightarrow> R s (f x s)"
    and est: "\<And>x s. x \<in> set xs \<Longrightarrow> R b s \<Longrightarrow> Q x (f x s)"
    and pres: "\<And>x s s'. Q x s \<Longrightarrow> R s s' \<Longrightarrow> Q x s'"
    and "R b s"
  shows "R s (fold f xs s) \<and> (\<forall>x\<in>set xs. Q x (fold f xs s))"
  using step est \<open>R b s\<close>
proof (induction xs arbitrary: s)
  case Nil
  show ?case by (simp add: refl)
next
  case (Cons x xs)
  have 1: "R s (f x s)" using Cons.prems(1) [of x s] Cons.prems(3) by simp
  have 2: "R b (f x s)" using trans [OF Cons.prems(3) 1] .
  have ih: "R (f x s) (fold f xs (f x s)) \<and> (\<forall>y\<in>set xs. Q y (fold f xs (f x s)))"
    using Cons.prems(1,2) 2 by (intro Cons.IH) auto
  have "Q x (f x s)" using Cons.prems(2) [of x s] Cons.prems(3) by simp
  with ih have "Q x (fold f xs (f x s))" using pres by blast
  with ih trans [OF 1] show ?case by auto
qed

lemma new_state_less: "m' < 4 \<Longrightarrow> snd (new_state v c m u m') < 3"
proof -
  assume "m' < 4"
  then consider "m' = 0" | "m' = Suc 0" | "m' = 2" | "m' = 3" by linarith
  then show ?thesis
    by cases (auto simp: new_state_def compute_new_state_without_mode_changing.simps
        compute_new_state_with_mode_changing.simps encoders_nth Let_def)
qed

lemma cell_info_cong:
  assumes "dp s' (k, m, u) = dp s (k, m, u)" "parents s' (k, m, u) = parents s (k, m, u)"
    and "\<And>c. fst c = k - 1 \<Longrightarrow> dp s' c = dp s c"
  shows "cell_info kanji v input s' k m u = cell_info kanji v input s k m u"
  using assms by (simp add: cell_info_def)

lemma step_rel_refl: "step_rel kanji v input n s s"
  by (simp add: step_rel_def)

lemma step_rel_trans:
  assumes "step_rel kanji v input n s s'" and "step_rel kanji v input n s' s''"
  shows "step_rel kanji v input n s s''"
proof -
  have a: "\<And>c. fst c \<noteq> Suc n \<Longrightarrow> dp s' c = dp s c \<and> parents s' c = parents s c"
    and b: "\<And>c. dp s' c \<le> dp s c"
    and c: "\<And>m u. (dp s' (Suc n, m, u) = dp s (Suc n, m, u) \<and>
             parents s' (Suc n, m, u) = parents s (Suc n, m, u))
            \<or> cell_info kanji v input s' (Suc n) m u"
    using assms(1) unfolding step_rel_def by blast+
  have a': "\<And>c. fst c \<noteq> Suc n \<Longrightarrow> dp s'' c = dp s' c \<and> parents s'' c = parents s' c"
    and b': "\<And>c. dp s'' c \<le> dp s' c"
    and c': "\<And>m u. (dp s'' (Suc n, m, u) = dp s' (Suc n, m, u) \<and>
             parents s'' (Suc n, m, u) = parents s' (Suc n, m, u))
            \<or> cell_info kanji v input s'' (Suc n) m u"
    using assms(2) unfolding step_rel_def by blast+
  have 1: "\<forall>c. fst c \<noteq> Suc n \<longrightarrow> dp s'' c = dp s c \<and> parents s'' c = parents s c"
    using a a' by simp
  have 2: "\<forall>c. dp s'' c \<le> dp s c"
    using b b' by (meson order_trans)
  have 3: "(dp s'' (Suc n, m, u) = dp s (Suc n, m, u) \<and>
             parents s'' (Suc n, m, u) = parents s (Suc n, m, u))
            \<or> cell_info kanji v input s'' (Suc n) m u" for m u
  proof (cases "cell_info kanji v input s'' (Suc n) m u")
    case True
    then show ?thesis by simp
  next
    case False
    with c' have same: "dp s'' (Suc n, m, u) = dp s' (Suc n, m, u)"
      "parents s'' (Suc n, m, u) = parents s' (Suc n, m, u)" by blast+
    have "cell_info kanji v input s'' (Suc n) m u = cell_info kanji v input s' (Suc n) m u"
      using same a' by (intro cell_info_cong) auto
    with False c [of m u] same show ?thesis by simp
  qed
  from 1 2 3 show ?thesis unfolding step_rel_def by blast
qed

lemma relax_step_rel:
  assumes "m < 4" "u < 3" "m' < 4" "dp s (n, m, u) \<noteq> INF_value"
  shows "step_rel kanji v input n s (relax kanji v input n m u m' s)"
proof (cases "relax kanji v input n m u m' s = s")
  case True
  then show ?thesis by (simp add: step_rel_refl)
next
  case False
  let ?ns = "new_state v (input ! n) m u m'"
  let ?s' = "relax kanji v input n m u m' s"
  from False have valid: "is_valid_characters kanji (encoders ! m') [input ! n]"
    and less: "dp s (n, m, u) + fst ?ns < dp s (Suc n, m', snd ?ns)"
    by (auto simp: relax_eq split: if_splits)
  then have dp': "dp ?s' = (dp s)((Suc n, m', snd ?ns) := dp s (n, m, u) + fst ?ns)"
    and par': "parents ?s' = (parents s)((Suc n, m', snd ?ns) := (int n, int m, int u))"
    by (simp_all add: relax_eq)
  have 1: "\<forall>c. fst c \<noteq> Suc n \<longrightarrow> dp ?s' c = dp s c \<and> parents ?s' c = parents s c"
    by (auto simp: dp' par')
  have 2: "\<forall>c. dp ?s' c \<le> dp s c"
    using less by (auto simp: dp')
  have info: "cell_info kanji v input ?s' (Suc n) m' (snd ?ns)"
    unfolding cell_info_def
    using assms valid
    by (intro exI [of _ m] exI [of _ u]) (simp add: dp' par')
  have 3: "(dp ?s' (Suc n, a, b) = dp s (Suc n, a, b) \<and>
             parents ?s' (Suc n, a, b) = parents s (Suc n, a, b))
            \<or> cell_info kanji v input ?s' (Suc n) a b" for a b
    using info by (cases "a = m' \<and> b = snd ?ns") (auto simp: dp' par')
  from 1 2 3 show ?thesis unfolding step_rel_def by blast
qed

lemma step_rel_row: "step_rel kanji v input n b s \<Longrightarrow> dp s (n, m, u) = dp b (n, m, u)"
  by (simp add: step_rel_def)

lemma relax_hit:
  assumes "step_rel kanji v input n b s"
  shows "hit kanji v input n b (relax kanji v input n m u m' s) m u m'"
  using step_rel_row [OF assms, of m u]
  by (auto simp: hit_def relax_eq)

lemma hit_pres:
  "hit kanji v input n b s m u m' \<Longrightarrow> step_rel kanji v input n s s' \<Longrightarrow> hit kanji v input n b s' m u m'"
  unfolding hit_def step_rel_def by (meson order_trans)

lemma relax_state_props:
  assumes "m < 4" "u < 3" "step_rel kanji v input n b s"
  shows "step_rel kanji v input n s (relax_state kanji v input n m u s) \<and>
         (\<forall>m'\<in>set [0..<4]. hit kanji v input n b (relax_state kanji v input n m u s) m u m')"
proof (cases "dp s (n, m, u) = INF_value")
  case True
  then have "dp b (n, m, u) = INF_value" using step_rel_row [OF assms(3), of m u] by simp
  with True show ?thesis
    by (simp add: relax_state_def step_rel_refl hit_def)
next
  case False
  have "step_rel kanji v input n s (fold (relax kanji v input n m u) [0..<4] s) \<and>
        (\<forall>m'\<in>set [0..<4]. hit kanji v input n b (fold (relax kanji v input n m u) [0..<4] s) m u m')"
  proof (rule fold_rel_hits [where R = "step_rel kanji v input n" and b = b
        and Q = "\<lambda>m' s. hit kanji v input n b s m u m'"])
    show "step_rel kanji v input n s s" for s by (rule step_rel_refl)
    show "step_rel kanji v input n s s''"
      if "step_rel kanji v input n s s'" "step_rel kanji v input n s' s''" for s s' s''
      using that by (rule step_rel_trans)
    show "step_rel kanji v input n t (relax kanji v input n m u x t)"
      if "x \<in> set [0..<4]" "step_rel kanji v input n b t" for x t
    proof -
      have "dp t (n, m, u) = dp s (n, m, u)"
        using step_rel_row [OF that(2), of m u] step_rel_row [OF assms(3), of m u] by simp
      with False that(1) assms show ?thesis by (intro relax_step_rel) auto
    qed
    show "hit kanji v input n b (relax kanji v input n m u x t) m u x"
      if "step_rel kanji v input n b t" for x t
      using that by (rule relax_hit)
    show "hit kanji v input n b s' m u x"
      if "hit kanji v input n b s m u x" "step_rel kanji v input n s s'" for x s s'
      using that by (rule hit_pres)
    show "step_rel kanji v input n b s" by (rule assms(3))
  qed
  with False show ?thesis by (simp add: relax_state_def)
qed

lemma relax_mode_props:
  assumes "m < 4" "step_rel kanji v input n b s"
  shows "step_rel kanji v input n s (fold (relax_state kanji v input n m) [0..<3] s) \<and>
         (\<forall>u\<in>set [0..<3]. \<forall>m'\<in>set [0..<4].
             hit kanji v input n b (fold (relax_state kanji v input n m) [0..<3] s) m u m')"
proof (rule fold_rel_hits [where R = "step_rel kanji v input n" and b = b
      and Q = "\<lambda>u s. \<forall>m'\<in>set [0..<4]. hit kanji v input n b s m u m'"])
  show "step_rel kanji v input n s s" for s by (rule step_rel_refl)
  show "step_rel kanji v input n s s''"
    if "step_rel kanji v input n s s'" "step_rel kanji v input n s' s''" for s s' s''
    using that by (rule step_rel_trans)
  show "step_rel kanji v input n t (relax_state kanji v input n m x t)"
    if "x \<in> set [0..<3]" "step_rel kanji v input n b t" for x t
    using relax_state_props [OF assms(1) _ that(2), of x] that(1) by simp
  show "\<forall>m'\<in>set [0..<4]. hit kanji v input n b (relax_state kanji v input n m x t) m x m'"
    if "x \<in> set [0..<3]" "step_rel kanji v input n b t" for x t
    using relax_state_props [OF assms(1) _ that(2), of x] that(1) by simp
  show "\<forall>m'\<in>set [0..<4]. hit kanji v input n b s' m x m'"
    if "\<forall>m'\<in>set [0..<4]. hit kanji v input n b s m x m'" "step_rel kanji v input n s s'" for x s s'
    using that hit_pres by blast
  show "step_rel kanji v input n b s" by (rule assms(2))
qed

lemma relax_position_props:
  "step_rel kanji v input n b (relax_position kanji v input n b) \<and>
   (\<forall>m\<in>set [0..<4]. \<forall>u\<in>set [0..<3]. \<forall>m'\<in>set [0..<4].
       hit kanji v input n b (relax_position kanji v input n b) m u m')"
  unfolding relax_position_def
proof (rule fold_rel_hits [where R = "step_rel kanji v input n" and b = b
      and Q = "\<lambda>m s. \<forall>u\<in>set [0..<3]. \<forall>m'\<in>set [0..<4]. hit kanji v input n b s m u m'"])
  show "step_rel kanji v input n s s" for s by (rule step_rel_refl)
  show "step_rel kanji v input n s s''"
    if "step_rel kanji v input n s s'" "step_rel kanji v input n s' s''" for s s' s''
    using that by (rule step_rel_trans)
  show "step_rel kanji v input n t (fold (relax_state kanji v input n x) [0..<3] t)"
    if "x \<in> set [0..<4]" "step_rel kanji v input n b t" for x t
    using relax_mode_props [OF _ that(2), of x] that(1) by simp
  show "\<forall>u\<in>set [0..<3]. \<forall>m'\<in>set [0..<4].
          hit kanji v input n b (fold (relax_state kanji v input n x) [0..<3] t) x u m'"
    if "x \<in> set [0..<4]" "step_rel kanji v input n b t" for x t
    using relax_mode_props [OF _ that(2), of x] that(1) by simp
  show "\<forall>u\<in>set [0..<3]. \<forall>m'\<in>set [0..<4]. hit kanji v input n b s' x u m'"
    if "\<forall>u\<in>set [0..<3]. \<forall>m'\<in>set [0..<4]. hit kanji v input n b s x u m'"
      "step_rel kanji v input n s s'" for x s s'
    using that hit_pres by blast
  show "step_rel kanji v input n b b" by (rule step_rel_refl)
qed

section \<open>The invariant of \_compute\_costs\<close>

lemma dp_invI:
  assumes "\<forall>m<4. dp s (0, m, 0) = header v (encoders ! m)"
    and "\<forall>m u. 0 < u \<longrightarrow> dp s (0, m, u) = INF_value"
    and "\<forall>k m u. j < k \<longrightarrow> dp s (k, m, u) = INF_value"
    and "\<forall>k m u. 0 < k \<longrightarrow> k \<le> j \<longrightarrow> m < 4 \<longrightarrow> u < 3 \<longrightarrow>
        dp s (k, m, u) = INF_value \<or> cell_info kanji v input s k m u"
    and "\<forall>n m u m'. n < j \<longrightarrow> m < 4 \<longrightarrow> u < 3 \<longrightarrow> m' < 4 \<longrightarrow> hit kanji v input n s s m u m'"
  shows "dp_inv kanji v input j s"
  unfolding dp_inv_def using assms by (intro conjI)

lemma dp_invD:
  assumes "dp_inv kanji v input j s"
  shows "m < 4 \<Longrightarrow> dp s (0, m, 0) = header v (encoders ! m)"
    and "0 < u \<Longrightarrow> dp s (0, m, u) = INF_value"
    and "j < k \<Longrightarrow> dp s (k, m, u) = INF_value"
    and "0 < k \<Longrightarrow> k \<le> j \<Longrightarrow> m < 4 \<Longrightarrow> u < 3 \<Longrightarrow>
        dp s (k, m, u) = INF_value \<or> cell_info kanji v input s k m u"
    and "n < j \<Longrightarrow> m < 4 \<Longrightarrow> u < 3 \<Longrightarrow> m' < 4 \<Longrightarrow> hit kanji v input n s s m u m'"
proof -
  have all: "(\<forall>m<4. dp s (0, m, 0) = header v (encoders ! m)) \<and>
     (\<forall>m u. 0 < u \<longrightarrow> dp s (0, m, u) = INF_value) \<and>
     (\<forall>k m u. j < k \<longrightarrow> dp s (k, m, u) = INF_value) \<and>
     (\<forall>k m u. 0 < k \<longrightarrow> k \<le> j \<longrightarrow> m < 4 \<longrightarrow> u < 3 \<longrightarrow>
        dp s (k, m, u) = INF_value \<or> cell_info kanji v input s k m u) \<and>
     (\<forall>n m u m'. n < j \<longrightarrow> m < 4 \<longrightarrow> u < 3 \<longrightarrow> m' < 4 \<longrightarrow> hit kanji v input n s s m u m')"
    using assms unfolding dp_inv_def .
  note a = all [THEN conjunct1]
    and b = all [THEN conjunct2, THEN conjunct1]
    and c = all [THEN conjunct2, THEN conjunct2, THEN conjunct1]
    and d = all [THEN conjunct2, THEN conjunct2, THEN conjunct2, THEN conjunct1]
    and e = all [THEN conjunct2, THEN conjunct2, THEN conjunct2, THEN conjunct2]
  show "m < 4 \<Longrightarrow> dp s (0, m, 0) = header v (encoders ! m)" using a by simp
  show "0 < u \<Longrightarrow> dp s (0, m, u) = INF_value" using b by simp
  show "j < k \<Longrightarrow> dp s (k, m, u) = INF_value" using c by simp
  show "0 < k \<Longrightarrow> k \<le> j \<Longrightarrow> m < 4 \<Longrightarrow> u < 3 \<Longrightarrow>
        dp s (k, m, u) = INF_value \<or> cell_info kanji v input s k m u"
    using d by (elim allE [of _ k] allE [of _ m] allE [of _ u]) simp
  show "n < j \<Longrightarrow> m < 4 \<Longrightarrow> u < 3 \<Longrightarrow> m' < 4 \<Longrightarrow> hit kanji v input n s s m u m'"
    using e by (elim allE [of _ n] allE [of _ m] allE [of _ u] allE [of _ m']) simp
qed

lemma dp_inv_base: "dp_inv kanji v input 0 (base_case v (init\<lparr>qr_version := q\<rparr>))"
proof (rule dp_invI)
  let ?b = "base_case v (init\<lparr>qr_version := q\<rparr>)"
  show "\<forall>m<4. dp ?b (0, m, 0) = header v (encoders ! m)"
    by (simp add: base_case_dp header_def)
  show "\<forall>m u. 0 < u \<longrightarrow> dp ?b (0, m, u) = INF_value"
    by (simp add: base_case_dp init_def)
  show "\<forall>k m u. 0 < k \<longrightarrow> dp ?b (k, m, u) = INF_value"
    by (simp add: base_case_dp init_def)
  show "\<forall>k m u. 0 < k \<longrightarrow> k \<le> 0 \<longrightarrow> m < 4 \<longrightarrow> u < 3 \<longrightarrow>
        dp ?b (k, m, u) = INF_value \<or> cell_info kanji v input ?b k m u"
    by simp
  show "\<forall>n m u m'. n < 0 \<longrightarrow> m < 4 \<longrightarrow> u < 3 \<longrightarrow> m' < 4 \<longrightarrow> hit kanji v input n ?b ?b m u m'"
    by simp
qed

lemma dp_inv_step:
  assumes "dp_inv kanji v input j s"
  shows "dp_inv kanji v input (Suc j) (relax_position kanji v input j s)"
proof (rule dp_invI)
  let ?s' = "relax_position kanji v input j s"
  have rel: "step_rel kanji v input j s ?s'"
    and hits: "\<And>m u m'. m < 4 \<Longrightarrow> u < 3 \<Longrightarrow> m' < 4 \<Longrightarrow> hit kanji v input j s ?s' m u m'"
    using relax_position_props [of kanji v input j s] by auto
  have same: "dp ?s' c = dp s c" "parents ?s' c = parents s c" if "fst c \<noteq> Suc j" for c
    using rel that unfolding step_rel_def by blast+
  note inv = dp_invD [OF assms]
  show "\<forall>m<4. dp ?s' (0, m, 0) = header v (encoders ! m)"
    using inv(1) by (simp add: same)
  show "\<forall>m u. 0 < u \<longrightarrow> dp ?s' (0, m, u) = INF_value"
    using inv(2) by (simp add: same)
  show "\<forall>k m u. Suc j < k \<longrightarrow> dp ?s' (k, m, u) = INF_value"
    using inv(3) by (simp add: same)
  show "\<forall>k m u. 0 < k \<longrightarrow> k \<le> Suc j \<longrightarrow> m < 4 \<longrightarrow> u < 3 \<longrightarrow>
        dp ?s' (k, m, u) = INF_value \<or> cell_info kanji v input ?s' k m u"
  proof (intro allI impI)
    fix k m u :: nat
    assume that: "0 < k" "k \<le> Suc j" "m < 4" "u < 3"
    show "dp ?s' (k, m, u) = INF_value \<or> cell_info kanji v input ?s' k m u"
    proof (cases "k = Suc j")
      case True
      from rel have "(dp ?s' (Suc j, m, u) = dp s (Suc j, m, u) \<and>
               parents ?s' (Suc j, m, u) = parents s (Suc j, m, u))
              \<or> cell_info kanji v input ?s' (Suc j) m u"
        unfolding step_rel_def by blast
      moreover have "dp s (Suc j, m, u) = INF_value" by (rule inv(3)) simp
      ultimately show ?thesis using True by auto
    next
      case False
      with that have kj: "k \<le> j" by simp
      have "cell_info kanji v input ?s' k m u = cell_info kanji v input s k m u"
        using kj that(1) by (intro cell_info_cong same) auto
      moreover have "dp ?s' (k, m, u) = dp s (k, m, u)"
        using kj by (intro same) simp
      ultimately show ?thesis using inv(4) [OF that(1) kj that(3,4)] by simp
    qed
  qed
  show "\<forall>n m u m'. n < Suc j \<longrightarrow> m < 4 \<longrightarrow> u < 3 \<longrightarrow> m' < 4 \<longrightarrow> hit kanji v input n ?s' ?s' m u m'"
  proof (intro allI impI)
    fix n m u m' :: nat
    assume that: "n < Suc j" "m < 4" "u < 3" "m' < 4"
    have row: "dp ?s' (n, m, u) = dp s (n, m, u)"
      using that(1) by (intro same) simp
    show "hit kanji v input n ?s' ?s' m u m'"
    proof (cases "n = j")
      case True
      with hits [OF that(2-4)] row show ?thesis by (simp add: hit_def)
    next
      case False
      with that have "n < j" by simp
      have "dp ?s' (Suc n, m', snd (new_state v (input ! n) m u m'))
          = dp s (Suc n, m', snd (new_state v (input ! n) m u m'))"
        using \<open>n < j\<close> by (intro same) simp
      with inv(5) [OF \<open>n < j\<close> that(2-4)] row show ?thesis by (simp add: hit_def)
    qed
  qed
qed

lemma dp_inv_fold:
  "dp_inv kanji v input j
     (fold (relax_position kanji v input) [0..<j] (base_case v (init\<lparr>qr_version := q\<rparr>)))"
  by (induction j) (simp_all add: dp_inv_base dp_inv_step)

lemma dp_inv_compute_costs:
  "dp_inv kanji v input (length input) (compute_costs kanji v input (init\<lparr>qr_version := q\<rparr>))"
  unfolding compute_costs_def by (rule dp_inv_fold)

section \<open>The tables bound every segmentation from below\<close>

lemma run_Nil: "run e [] = []"
  by (simp add: run_def)

lemma run_Cons_same: "run e ((e, c) # ys) = run e ys @ [c]"
  by (simp add: run_def)

lemma run_Cons_other: "e' \<noteq> e \<Longrightarrow> run e ((e', c) # ys) = []"
  by (simp add: run_def)

lemma run_eq_Nil_iff: "run e ys = [] \<longleftrightarrow> ys = [] \<or> fst (hd ys) \<noteq> e"
  by (cases ys) (auto simp: run_def)

lemma mode_of_inj: "mode_of e = mode_of e' \<longleftrightarrow> e = e'"
  by (cases e; cases e') simp_all

lemma header_nonneg: "table_ok v \<Longrightarrow> 0 \<le> header v e"
  using table_ok_nonneg [of v e] by (simp add: header_eq)

lemma rcost_step_nonneg:
  assumes "table_ok v"
  shows "rcost v ys \<le> rcost v (z # ys)"
proof -
  let ?w = "character_count_indicator_length v (fst z)"
  have "0 \<le> encoder_length (fst z) [snd z] ?w"
    using encoder_length_ge_header [of "fst z" ?w "[snd z]"] header_nonneg [OF assms, of "fst z"]
    by (simp add: header_def)
  moreover have "0 \<le> encoder_length (fst z) (run (fst z) ys @ [snd z]) ?w
      - encoder_length (fst z) (run (fst z) ys) ?w"
    using encoder_length_snoc_ge [of "fst z" "run (fst z) ys" ?w "snd z"] by simp
  ultimately show ?thesis by simp
qed

lemma take_Suc_snoc:
  assumes "map snd (rev (z # ys)) = take (length (z # ys)) input"
  shows "length ys < length input \<and> input ! length ys = snd z \<and>
         map snd (rev ys) = take (length ys) input"
proof -
  have "length (map snd (rev (z # ys))) = length (take (length (z # ys)) input)"
    using assms by simp
  then have len: "length ys < length input" by simp
  then have "take (Suc (length ys)) input = take (length ys) input @ [input ! length ys]"
    by (rule take_Suc_conv_app_nth)
  with assms have "map snd (rev ys) @ [snd z] = take (length ys) input @ [input ! length ys]"
    by simp
  then have "map snd (rev ys) = take (length ys) input \<and> snd z = input ! length ys"
    by simp
  with len show ?thesis by simp
qed

lemma dp_lower_bound:
  assumes inv: "dp_inv kanji v input j s" and tbl: "table_ok v"
  shows "ys \<noteq> [] \<Longrightarrow> length ys \<le> j \<Longrightarrow> map snd (rev ys) = take (length ys) input \<Longrightarrow>
         (\<forall>z\<in>set ys. is_valid_characters kanji (fst z) [snd z]) \<Longrightarrow>
         rcost v ys < INF_value \<Longrightarrow>
         dp s (length ys, mode_of (fst (hd ys)), phase (fst (hd ys)) (length (run (fst (hd ys)) ys)))
           \<le> rcost v ys"
proof (induction ys)
  case Nil
  then show ?case by simp
next
  case (Cons z ys)
  obtain e c where z: "z = (e, c)" by (cases z)
  let ?w = "character_count_indicator_length v e"
  let ?m = "mode_of e"
  let ?n = "length ys"
  from take_Suc_snoc [OF Cons.prems(3)] z
  have n: "?n < length input" and c: "input ! ?n = c"
    and pre: "map snd (rev ys) = take ?n input" by simp_all
  have valid: "is_valid_characters kanji (encoders ! ?m) [input ! ?n]"
    using Cons.prems(4) z c by (simp add: encoders_mode_of)
  have nj: "?n < j" using Cons.prems(2) by simp
  show ?case
  proof (cases "ys = []")
    case True
    have cost: "rcost v (z # ys) = encoder_length e [c] ?w"
      using True z by (simp add: run_Nil)
    have root: "dp s (0, ?m, 0) = header v e"
      using dp_invD(1) [OF inv mode_of_less, of e] by (simp add: encoders_mode_of)
    have "header v e \<le> encoder_length e [c] ?w"
      using encoder_length_ge_header [of e ?w "[c]"] by (simp add: header_def)
    with cost Cons.prems(5) root have ne: "dp s (0, ?m, 0) \<noteq> INF_value" by simp
    have ns: "new_state v c ?m 0 ?m = (encoder_length e [c] ?w - header v e, phase e (Suc 0))"
      using same_mode_step [OF mode_of_less, of c e "[]" ?w]
      by (simp add: new_state_def encoders_mode_of header_def phase_0)
    have "hit kanji v input 0 s s ?m 0 ?m"
      using nj True by (intro dp_invD(5) [OF inv]) (simp_all add: mode_of_less)
    with ne valid True c ns root
    have "dp s (Suc 0, ?m, phase e (Suc 0)) \<le> encoder_length e [c] ?w"
      by (simp add: hit_def)
    with True z cost show ?thesis
      by (simp add: run_Cons_same run_Nil)
  next
    case False
    let ?e' = "fst (hd ys)"
    let ?m' = "mode_of ?e'"
    let ?u' = "phase ?e' (length (run ?e' ys))"
    have less: "rcost v ys < INF_value"
      using rcost_step_nonneg [OF tbl, of ys z] Cons.prems(5) by simp
    have ih: "dp s (?n, ?m', ?u') \<le> rcost v ys"
      using False Cons.prems(2,4) pre less by (intro Cons.IH) simp_all
    with less have ne: "dp s (?n, ?m', ?u') \<noteq> INF_value" by simp
    have "hit kanji v input ?n s s ?m' ?u' ?m"
      using nj by (intro dp_invD(5) [OF inv]) (simp_all add: mode_of_less phase_less)
    with ne valid c
    have bound: "dp s (Suc ?n, ?m, snd (new_state v c ?m' ?u' ?m))
        \<le> dp s (?n, ?m', ?u') + fst (new_state v c ?m' ?u' ?m)"
      by (simp add: hit_def)
    show ?thesis
    proof (cases "?e' = e")
      case True
      then have r: "run e ys \<noteq> []" using False by (simp add: run_eq_Nil_iff)
      have ns: "new_state v c ?m' ?u' ?m
          = (encoder_length e (run e ys @ [c]) ?w - encoder_length e (run e ys) ?w,
             phase e (Suc (length (run e ys))))"
        using same_mode_step [OF mode_of_less, of c e "run e ys" ?w] True
        by (simp add: new_state_def encoders_mode_of)
      have "rcost v (z # ys) = rcost v ys
          + (encoder_length e (run e ys @ [c]) ?w - encoder_length e (run e ys) ?w)"
        using z r by simp
      with bound ih ns z show ?thesis
        by (simp add: run_Cons_same)
    next
      case other: False
      then have r: "run e ys = []" by (simp add: run_eq_Nil_iff)
      from other have "?m \<noteq> ?m'" by (simp add: mode_of_inj)
      then have ns: "new_state v c ?m' ?u' ?m = (encoder_length e [c] ?w, phase e (Suc 0))"
        using mode_change_step [OF mode_of_less, of v c e ?u']
        by (simp add: new_state_def encoders_mode_of)
      have "rcost v (z # ys) = rcost v ys + encoder_length e [c] ?w"
        using z r by simp
      with bound ih ns z r show ?thesis
        by (simp add: run_Cons_same)
    qed
  qed
qed

section \<open>The reconstructed path\<close>

lemma py_index_in_range: "i < len \<Longrightarrow> py_index len (int i) = Inr i"
  by (simp add: py_index_def)

lemma parents_at_in_range:
  "k \<le> MAX_CHARACTER \<Longrightarrow> m < 4 \<Longrightarrow> u < 3 \<Longrightarrow>
   parents_at s (int k, int m, int u) = Inr (parents s (k, m, u))"
  by (simp add: parents_at_def py_index_in_range)

lemma cell_infoD:
  assumes "cell_info kanji v input s k m u"
  obtains m' u' where "m' < 4" "u' < 3" "parents s (k, m, u) = (int (k - 1), int m', int u')"
    "dp s (k - 1, m', u') \<noteq> INF_value"
    "is_valid_characters kanji (encoders ! m) [input ! (k - 1)]"
    "snd (new_state v (input ! (k - 1)) m' u' m) = u"
    "dp s (k, m, u) = dp s (k - 1, m', u') + fst (new_state v (input ! (k - 1)) m' u' m)"
  using assms unfolding cell_info_def by blast

lemma reconstruct_loop_descend:
  assumes inv: "dp_inv kanji v input j s" and j: "j \<le> MAX_CHARACTER"
  shows "k \<le> j \<Longrightarrow> m < 4 \<Longrightarrow> u < 3 \<Longrightarrow> k = 0 \<or> dp s (k, m, u) \<noteq> INF_value \<Longrightarrow>
         reconstruct_loop s (int k, int m, int u) acc
           = Some (Inr (acc @ descend s k (int k, int m, int u)))"
proof (induction k arbitrary: m u acc)
  case 0
  show ?case by (subst reconstruct_loop.simps) simp
next
  case (Suc k)
  from Suc.prems have ne: "dp s (Suc k, m, u) \<noteq> INF_value" by simp
  with dp_invD(4) [OF inv, of "Suc k" m u] Suc.prems
  have "cell_info kanji v input s (Suc k) m u" by simp
  then obtain m' u' where p: "m' < 4" "u' < 3"
      "parents s (Suc k, m, u) = (int k, int m', int u')" "dp s (k, m', u') \<noteq> INF_value"
    by (rule cell_infoD) simp
  have at: "parents_at s (int (Suc k), int m, int u) = Inr (int k, int m', int u')"
    using parents_at_in_range [of "Suc k" m u s] Suc.prems j p(3) by (simp del: of_nat_Suc)
  have "reconstruct_loop s (int (Suc k), int m, int u) acc
      = reconstruct_loop s (int k, int m', int u') (acc @ [(int (Suc k), int m, int u)])"
    by (subst reconstruct_loop.simps) (simp add: at del: of_nat_Suc)
  also have "\<dots> = Some (Inr ((acc @ [(int (Suc k), int m, int u)]) @ descend s k (int k, int m', int u')))"
    using Suc.prems p by (intro Suc.IH) simp_all
  finally show ?case using p(3) by (simp del: of_nat_Suc)
qed

lemma encoders_inj: "m < 4 \<Longrightarrow> m' < 4 \<Longrightarrow> encoders ! m = encoders ! m' \<longleftrightarrow> m = m'"
  using mode_of_encoders by metis

lemma path_accounting:
  assumes inv: "dp_inv kanji v input j s" and tbl: "table_ok v" and j: "j \<le> length input"
  shows "0 < k \<Longrightarrow> k \<le> j \<Longrightarrow> m < 4 \<Longrightarrow> u < 3 \<Longrightarrow> dp s (k, m, u) \<noteq> INF_value \<Longrightarrow>
         length (descend s k (int k, int m, int u)) = k \<and>
         map snd (rev (path_tags input (descend s k (int k, int m, int u)))) = take k input \<and>
         (\<forall>z\<in>set (path_tags input (descend s k (int k, int m, int u))).
             is_valid_characters kanji (fst z) [snd z]) \<and>
         fst (hd (path_tags input (descend s k (int k, int m, int u)))) = encoders ! m \<and>
         u = phase (encoders ! m)
               (length (run (encoders ! m) (path_tags input (descend s k (int k, int m, int u))))) \<and>
         rcost v (path_tags input (descend s k (int k, int m, int u))) \<le> dp s (k, m, u)"
proof (induction k arbitrary: m u)
  case 0
  then show ?case by simp
next
  case (Suc k)
  let ?e = "encoders ! m"
  let ?c = "input ! k"
  let ?w = "character_count_indicator_length v ?e"
  from dp_invD(4) [OF inv, of "Suc k" m u] Suc.prems
  have "cell_info kanji v input s (Suc k) m u" by simp
  then obtain m' u' where p: "m' < 4" "u' < 3"
      "parents s (Suc k, m, u) = (int k, int m', int u')" "dp s (k, m', u') \<noteq> INF_value"
      "is_valid_characters kanji ?e [?c]"
      "snd (new_state v ?c m' u' m) = u"
      "dp s (Suc k, m, u) = dp s (k, m', u') + fst (new_state v ?c m' u' m)"
    by (rule cell_infoD) simp
  let ?ys = "path_tags input (descend s k (int k, int m', int u'))"
  have "nat (int (Suc k) - 1) = k" by simp
  then have tags: "path_tags input (descend s (Suc k) (int (Suc k), int m, int u)) = (?e, ?c) # ?ys"
    using p(3) by (simp add: path_tags_def del: of_nat_Suc)
  have kl: "k < length input" using Suc.prems(2) j by simp
  show ?case
  proof (cases k)
    case 0
    have u0: "u' = 0"
    proof (rule ccontr)
      assume "u' \<noteq> 0"
      then have "dp s (0, m', u') = INF_value" by (intro dp_invD(2) [OF inv]) simp
      with p(4) 0 show False by simp
    qed
    have root: "dp s (0, m', 0) = header v (encoders ! m')"
      by (rule dp_invD(1) [OF inv p(1)])
    have ys: "?ys = []" using 0 by (simp add: path_tags_def)
    have cost: "rcost v [(?e, ?c)] = encoder_length ?e [?c] ?w"
      by (simp add: run_Nil)
    have "rcost v [(?e, ?c)] \<le> dp s (Suc k, m, u) \<and> u = phase ?e (Suc 0)"
    proof (cases "m = m'")
      case True
      have "new_state v ?c m' u' m = (encoder_length ?e [?c] ?w - header v ?e, phase ?e (Suc 0))"
        using same_mode_step [OF Suc.prems(3), of ?c "[]" ?w] True u0
        by (simp add: new_state_def header_def phase_0)
      with p(6,7) root True u0 0 cost show ?thesis by simp
    next
      case False
      then have "new_state v ?c m' u' m = (encoder_length ?e [?c] ?w, phase ?e (Suc 0))"
        using mode_change_step [OF Suc.prems(3), of v ?c u'] by (simp add: new_state_def)
      with p(6,7) root u0 0 cost header_nonneg [OF tbl, of "encoders ! m'"] show ?thesis by simp
    qed
    then have a: "rcost v [(?e, ?c)] \<le> dp s (Suc k, m, u)" and b: "u = phase ?e (Suc 0)"
      by blast+
    have "length (descend s (Suc k) (int (Suc k), int m, int u)) = Suc k"
      using 0 by simp
    moreover have "map snd (rev [(?e, ?c)]) = take (Suc k) input"
      using 0 kl by (simp add: take_Suc_conv_app_nth)
    moreover have "length (run ?e [(?e, ?c)]) = Suc 0"
      by (simp add: run_Cons_same run_Nil)
    ultimately show ?thesis
      unfolding tags ys using a b p(5) by simp
  next
    case (Suc k0)
    have ih: "length (descend s k (int k, int m', int u')) = k"
      "map snd (rev ?ys) = take k input"
      "\<forall>z\<in>set ?ys. is_valid_characters kanji (fst z) [snd z]"
      "fst (hd ?ys) = encoders ! m'"
      "u' = phase (encoders ! m') (length (run (encoders ! m') ?ys))"
      "rcost v ?ys \<le> dp s (k, m', u')"
      using Suc.IH [of m' u'] Suc Suc.prems(2) p(1,2,4) by simp_all
    have ne: "?ys \<noteq> []" using ih(1) Suc by (auto simp: path_tags_def)
    have "rcost v ((?e, ?c) # ?ys) \<le> dp s (Suc k, m, u) \<and>
          u = phase ?e (length (run ?e ((?e, ?c) # ?ys)))"
    proof (cases "m = m'")
      case True
      then have r: "run ?e ?ys \<noteq> []" using ne ih(4) by (simp add: run_eq_Nil_iff)
      have "new_state v ?c m' u' m
          = (encoder_length ?e (run ?e ?ys @ [?c]) ?w - encoder_length ?e (run ?e ?ys) ?w,
             phase ?e (Suc (length (run ?e ?ys))))"
        using same_mode_step [OF Suc.prems(3), of ?c "run ?e ?ys" ?w] True ih(5)
        by (simp add: new_state_def)
      with p(6,7) ih(6) r show ?thesis by (simp add: run_Cons_same)
    next
      case False
      then have "?e \<noteq> encoders ! m'"
        using encoders_inj [OF Suc.prems(3) p(1)] by simp
      then have r: "run ?e ?ys = []" using ih(4) by (simp add: run_eq_Nil_iff)
      from False have "new_state v ?c m' u' m = (encoder_length ?e [?c] ?w, phase ?e (Suc 0))"
        using mode_change_step [OF Suc.prems(3), of v ?c u'] by (simp add: new_state_def)
      with p(6,7) ih(6) r show ?thesis by (simp add: run_Cons_same)
    qed
    then have a: "rcost v ((?e, ?c) # ?ys) \<le> dp s (Suc k, m, u)"
      and b: "u = phase ?e (length (run ?e ((?e, ?c) # ?ys)))"
      by blast+
    have "length (descend s (Suc k) (int (Suc k), int m, int u)) = Suc k"
      using ih(1) p(3) by (simp del: of_nat_Suc)
    moreover have "map snd (rev ((?e, ?c) # ?ys)) = take (Suc k) input"
      using ih(2) kl by (simp add: take_Suc_conv_app_nth)
    ultimately show ?thesis
      unfolding tags using a b p(5) ih(3) by simp
  qed
qed

section \<open>The merge into segments\<close>

lemma descend_range:
  assumes inv: "dp_inv kanji v input j s" and j: "j \<le> length input"
  shows "k \<le> j \<Longrightarrow> m < 4 \<Longrightarrow> u < 3 \<Longrightarrow> k = 0 \<or> dp s (k, m, u) \<noteq> INF_value \<Longrightarrow>
         \<forall>p\<in>set (descend s k (int k, int m, int u)). step_ok input p"
proof (induction k arbitrary: m u)
  case 0
  show ?case by simp
next
  case (Suc k)
  from dp_invD(4) [OF inv, of "Suc k" m u] Suc.prems
  have "cell_info kanji v input s (Suc k) m u" by simp
  then obtain m' u' where p: "m' < 4" "u' < 3"
      "parents s (Suc k, m, u) = (int k, int m', int u')" "dp s (k, m', u') \<noteq> INF_value"
    by (rule cell_infoD) simp
  have "\<forall>p\<in>set (descend s k (int k, int m', int u')). step_ok input p"
    using Suc.prems p by (intro Suc.IH) simp_all
  moreover have "step_ok input (int (Suc k), int m, int u)"
    using Suc.prems j by (simp add: step_ok_def)
  ultimately show ?case using p(3) by (simp del: of_nat_Suc)
qed

lemma char_at_ok:
  "step_ok input p \<Longrightarrow> char_at input (fst p - 1) = Inr (input ! nat (fst p - 1))"
  by (auto simp: step_ok_def char_at_def py_index_def Let_def)

lemma encoder_at_ok: "m < 4 \<Longrightarrow> encoder_at (int m) = Inr (encoders ! m)"
  by (simp add: encoder_at_def py_index_def length_encoders)

lemma is_valid_characters_iff:
  "is_valid_characters kanji e s \<longleftrightarrow> (\<forall>c\<in>set s. is_valid_characters kanji e [c])"
  by (cases e) (simp_all add: list_all_iff)

lemma run_valid:
  assumes "\<forall>z\<in>set ys. is_valid_characters kanji (fst z) [snd z]"
  shows "is_valid_characters kanji e (run e ys)"
proof -
  have "c \<in> set (run e ys) \<Longrightarrow> (e, c) \<in> set ys" for c
    by (auto simp: run_def dest!: set_takeWhileD)
  with assms show ?thesis
    by (subst is_valid_characters_iff) force
qed

lemma total_length_snoc:
  "total_length v (segments @ [s]) = total_length v segments + segment_length v s"
  by (simp add: total_length_def)

lemma segments_loop_step:
  assumes acc: "acc_ok kanji v ys segments cur cm" and p: "step_ok input p"
    and z: "z = (encoders ! nat (fst (snd p)), input ! nat (fst p - 1))"
    and valid: "\<forall>z\<in>set ys. is_valid_characters kanji (fst z) [snd z]"
  shows "\<exists>segments' cur' cm'.
           segments_loop (p # path) input segments cur cm
             = segments_loop path input segments' cur' cm' \<and>
           acc_ok kanji v (z # ys) segments' cur' cm'"
proof -
  let ?e = "encoders ! nat (fst (snd p))"
  let ?c = "input ! nat (fst p - 1)"
  let ?w = "character_count_indicator_length v ?e"
  have m: "nat (fst (snd p)) < 4" "int (nat (fst (snd p))) = fst (snd p)"
    using p by (auto simp: step_ok_def)
  have mode: "int (mode_of ?e) = fst (snd p)"
    using m by (simp add: mode_of_encoders)
  note ch = char_at_ok [OF p]
  show ?thesis
  proof (cases "ys = []")
    case True
    with acc have a: "segments = []" "cur = []" "cm = -1" by (simp_all add: acc_ok_def)
    have "acc_ok kanji v (z # ys) [] [?c] (fst (snd p))"
      using True z mode by (simp add: acc_ok_def run_Cons_same run_Nil total_length_def)
    moreover have "segments_loop (p # path) input segments cur cm
        = segments_loop path input [] [?c] (fst (snd p))"
      using a ch by simp
    ultimately show ?thesis by blast
  next
    case False
    let ?prev = "fst (hd ys)"
    from acc False have a: "cm = int (mode_of ?prev)" "cur = run ?prev ys"
        "total_length v segments + encoder_length ?prev cur (character_count_indicator_length v ?prev)
           = rcost v ys"
        "concat (map data segments) @ cur = map snd (rev ys)"
        "\<forall>s\<in>set segments. is_valid_characters kanji (encoder_class s) (data s)"
      by (auto simp: acc_ok_def)
    from a(1) have cm: "cm \<noteq> -1" by simp
    show ?thesis
    proof (cases "cm = fst (snd p)")
      case True
      then have "int (mode_of ?e) = int (mode_of ?prev)"
        using a(1) mode by simp
      then have e: "?e = ?prev"
        by (simp add: mode_of_inj)
      then have r: "run ?e ys \<noteq> []" using False by (simp add: run_eq_Nil_iff)
      have "acc_ok kanji v (z # ys) segments (cur @ [?c]) cm"
        using a z e r True mode by (simp add: acc_ok_def run_Cons_same encoders_mode_of)
      moreover have "segments_loop (p # path) input segments cur cm
          = segments_loop path input segments (cur @ [?c]) cm"
        using True cm ch by simp
      ultimately show ?thesis by blast
    next
      case other: False
      have ne: "?e \<noteq> ?prev"
        using other a(1) mode by auto
      then have r: "run ?e ys = []" by (simp add: run_eq_Nil_iff)
      have enc: "encoder_at cm = Inr ?prev"
        using encoder_at_ok [OF mode_of_less, of ?prev] a(1) by (simp add: encoders_mode_of)
      have "is_valid_characters kanji ?prev cur"
        unfolding a(2) using valid by (rule run_valid)
      then have "acc_ok kanji v (z # ys) (segments @ [\<lparr>data = cur, encoder_class = ?prev\<rparr>]) [?c]
          (fst (snd p))"
        using a z r mode
        by (simp add: acc_ok_def run_Cons_same total_length_snoc segment_length_def encoders_mode_of)
      moreover have "segments_loop (p # path) input segments cur cm
          = segments_loop path input (segments @ [\<lparr>data = cur, encoder_class = ?prev\<rparr>]) [?c]
              (fst (snd p))"
        using other cm ch enc by simp
      ultimately show ?thesis by blast
    qed
  qed
qed

lemma segments_loop_ok:
  "acc_ok kanji v ys segments cur cm \<Longrightarrow> \<forall>p\<in>set path. step_ok input p \<Longrightarrow>
   \<forall>z\<in>set (rev (path_tags input path) @ ys). is_valid_characters kanji (fst z) [snd z] \<Longrightarrow>
   \<exists>segments' cur' cm'.
      segments_loop path input segments cur cm = Inr (segments', cur', cm') \<and>
      acc_ok kanji v (rev (path_tags input path) @ ys) segments' cur' cm'"
proof (induction path arbitrary: ys segments cur cm)
  case Nil
  then show ?case by (simp add: path_tags_def)
next
  case (Cons p path)
  let ?z = "(encoders ! nat (fst (snd p)), input ! nat (fst p - 1))"
  have tags: "rev (path_tags input (p # path)) @ ys = rev (path_tags input path) @ ?z # ys"
    by (simp add: path_tags_def)
  from Cons.prems(3) have v: "\<forall>z\<in>set ys. is_valid_characters kanji (fst z) [snd z]"
    by simp
  from segments_loop_step [OF Cons.prems(1) _ refl v, of input p path] Cons.prems(2)
  obtain segments' cur' cm' where
    s: "segments_loop (p # path) input segments cur cm = segments_loop path input segments' cur' cm'"
    and a: "acc_ok kanji v (?z # ys) segments' cur' cm'"
    by auto
  have "\<exists>segments'' cur'' cm''.
      segments_loop path input segments' cur' cm' = Inr (segments'', cur'', cm'') \<and>
      acc_ok kanji v (rev (path_tags input path) @ ?z # ys) segments'' cur'' cm''"
    using a Cons.prems(2,3) unfolding tags by (intro Cons.IH) simp_all
  then show ?case unfolding tags s .
qed

lemma compute_segments_ok:
  assumes "path \<noteq> []" and "\<forall>p\<in>set path. step_ok input p"
    and "\<forall>z\<in>set (path_tags input path). is_valid_characters kanji (fst z) [snd z]"
  shows "\<exists>segments. compute_segments path input = Inr segments \<and>
           total_length v segments = rcost v (rev (path_tags input path)) \<and>
           concat (map data segments) = map snd (path_tags input path) \<and>
           (\<forall>s\<in>set segments. is_valid_characters kanji (encoder_class s) (data s))"
proof -
  let ?ys = "rev (path_tags input path)"
  have "acc_ok kanji v [] [] [] (-1)" by (simp add: acc_ok_def)
  from segments_loop_ok [OF this assms(2)] assms(3)
  obtain segments cur cm where
    s: "segments_loop path input [] [] (-1) = Inr (segments, cur, cm)"
    and a: "acc_ok kanji v ?ys segments cur cm"
    by auto
  have ne: "?ys \<noteq> []" using assms(1) by (simp add: path_tags_def)
  let ?e = "fst (hd ?ys)"
  from a ne have b: "cm = int (mode_of ?e)" "cur = run ?e ?ys"
      "total_length v segments + encoder_length ?e cur (character_count_indicator_length v ?e)
         = rcost v ?ys"
      "concat (map data segments) @ cur = map snd (rev ?ys)"
      "\<forall>s\<in>set segments. is_valid_characters kanji (encoder_class s) (data s)"
    by (auto simp: acc_ok_def)
  have enc: "encoder_at cm = Inr ?e"
    using encoder_at_ok [OF mode_of_less, of ?e] b(1) by (simp add: encoders_mode_of)
  have cs: "compute_segments path input = Inr (segments @ [\<lparr>data = cur, encoder_class = ?e\<rparr>])"
    using s b(1) enc by (simp add: compute_segments_def)
  have "is_valid_characters kanji ?e cur"
    unfolding b(2) using assms(3) by (intro run_valid) simp
  with b show ?thesis
    unfolding cs by (simp add: total_length_snoc segment_length_def)
qed

section \<open>Optimality\<close>

lemma run_block: "run e (rev (map (Pair e) d) @ ys) = run e ys @ d"
proof -
  have "takeWhile (\<lambda>z. fst z = e) (rev (map (Pair e) d) @ ys)
      = rev (map (Pair e) d) @ takeWhile (\<lambda>z. fst z = e) ys"
    by (rule takeWhile_append2) auto
  then show ?thesis
    by (simp add: run_def rev_map comp_def)
qed

lemma rcost_block:
  "d \<noteq> [] \<Longrightarrow>
   rcost v (rev (map (Pair e) d) @ ys) =
     rcost v ys +
       (if run e ys = [] then encoder_length e d (character_count_indicator_length v e)
        else encoder_length e (run e ys @ d) (character_count_indicator_length v e)
           - encoder_length e (run e ys) (character_count_indicator_length v e))"
proof (induction d rule: rev_induct)
  case Nil
  then show ?case by simp
next
  case (snoc c d)
  show ?case
  proof (cases "d = []")
    case True
    then show ?thesis by simp
  next
    case False
    with snoc.IH show ?thesis
      by (simp add: run_block)
  qed
qed

lemma segment_block_le:
  assumes "table_ok v"
  shows "(if run e ys = [] then encoder_length e d (character_count_indicator_length v e)
          else encoder_length e (run e ys @ d) (character_count_indicator_length v e)
             - encoder_length e (run e ys) (character_count_indicator_length v e))
         \<le> encoder_length e d (character_count_indicator_length v e)"
proof -
  let ?w = "character_count_indicator_length v e"
  have "encoder_length e (run e ys @ d) ?w \<le> encoder_length e (run e ys) ?w + encoder_length e d 0 - 3"
    by (rule encoder_length_append_le)
  moreover have "encoder_length e d ?w = 3 + ?w + (encoder_length e d 0 - 3)"
    by (rule encoder_length_header)
  moreover have "0 \<le> ?w" using assms by (rule table_ok_nonneg)
  ultimately show ?thesis by simp
qed

lemma tag_snoc: "tag (P @ [s]) = tag P @ map (Pair (encoder_class s)) (data s)"
  by (simp add: tag_def)

lemma rcost_tag_le:
  assumes "table_ok v"
  shows "rcost v (rev (tag P)) \<le> total_length v P"
proof (induction P rule: rev_induct)
  case Nil
  show ?case by (simp add: tag_def total_length_def)
next
  case (snoc s P)
  let ?e = "encoder_class s"
  let ?w = "character_count_indicator_length v ?e"
  show ?case
  proof (cases "data s = []")
    case True
    have "0 \<le> encoder_length ?e [] ?w"
      using header_nonneg [OF assms, of ?e] by (simp add: header_def)
    with snoc True show ?thesis
      by (simp add: tag_snoc total_length_snoc segment_length_def)
  next
    case False
    have "rcost v (rev (tag (P @ [s]))) = rcost v (rev (map (Pair ?e) (data s)) @ rev (tag P))"
      by (simp add: tag_snoc)
    also have "\<dots> \<le> rcost v (rev (tag P)) + encoder_length ?e (data s) ?w"
      using segment_block_le [OF assms, of ?e "rev (tag P)" "data s"]
      by (simp add: rcost_block [OF False])
    finally show ?thesis
      using snoc by (simp add: total_length_snoc segment_length_def)
  qed
qed

lemma map_snd_tag: "map snd (tag P) = concat (map data P)"
  by (induction P) (simp_all add: tag_def comp_def)

lemma tag_valid:
  assumes "\<forall>s\<in>set P. is_valid_characters kanji (encoder_class s) (data s)"
  shows "\<forall>z\<in>set (tag P). is_valid_characters kanji (fst z) [snd z]"
proof
  fix z assume "z \<in> set (tag P)"
  then obtain s where s: "s \<in> set P" "fst z = encoder_class s" "snd z \<in> set (data s)"
    by (auto simp: tag_def)
  with assms have "is_valid_characters kanji (encoder_class s) (data s)" by simp
  with s show "is_valid_characters kanji (fst z) [snd z]"
    by (subst (asm) is_valid_characters_iff) simp
qed

lemma path_tags_rev: "path_tags input (rev path) = rev (path_tags input path)"
  by (simp add: path_tags_def rev_map)

lemma compute_length_total:
  "rMQRVersions version = Some v \<Longrightarrow>
   compute_length rMQRVersions segments version = Inr (total_length v segments)"
proof -
  have "segment_length v = (\<lambda>s. encoder_length (encoder_class s) (data s)
      (character_count_indicator_length v (encoder_class s)))"
    by (rule ext) (simp add: segment_length_def)
  then show "rMQRVersions version = Some v \<Longrightarrow>
      compute_length rMQRVersions segments version = Inr (total_length v segments)"
    by (simp add: compute_length_def total_length_def)
qed

lemma best_lower_bound:
  assumes inv: "dp_inv kanji v input (length input) s" and tbl: "table_ok v"
    and ys: "ys \<noteq> []" "map snd (rev ys) = input"
      "\<forall>z\<in>set ys. is_valid_characters kanji (fst z) [snd z]"
  shows "cost (find_best s input) \<le> rcost v ys"
proof (cases "rcost v ys < INF_value")
  case True
  have len: "length ys = length input"
    using ys(2) by (metis length_map length_rev)
  let ?m = "mode_of (fst (hd ys))"
  let ?u = "phase (fst (hd ys)) (length (run (fst (hd ys)) ys))"
  have "dp s (length ys, ?m, ?u) \<le> rcost v ys"
    using ys True len by (intro dp_lower_bound [OF inv tbl]) simp_all
  moreover have "cost (find_best s input) \<le> dp s (length input, ?m, ?u)"
  proof (cases s input rule: find_best_cases)
    case none
    from none(3) [OF mode_of_less phase_less] none(1) show ?thesis by simp
  next
    case (some mode u)
    from some(6) [OF mode_of_less phase_less] show ?thesis .
  qed
  ultimately show ?thesis using len by simp
next
  case False
  moreover have "cost (find_best s input) \<le> INF_value"
    by (cases s input rule: find_best_cases) simp_all
  ultimately show ?thesis by simp
qed

lemma compute_ok:
  assumes ne: "input \<noteq> []" and len: "length input \<le> MAX_CHARACTER"
    and ver: "rMQRVersions version = Some v" and tbl: "table_ok v"
    and cap: "number_of_data_bits v ecc < INF_value"
    and fit: "cost (find_best (compute_costs kanji v input (init\<lparr>qr_version := Some v\<rparr>)) input)
                \<le> number_of_data_bits v ecc"
  shows "\<exists>segments.
      compute kanji rMQRVersions init input version ecc
        = Some (Inr segments, compute_costs kanji v input (init\<lparr>qr_version := Some v\<rparr>)) \<and>
      total_length v segments
        = cost (find_best (compute_costs kanji v input (init\<lparr>qr_version := Some v\<rparr>)) input) \<and>
      concat (map data segments) = input \<and>
      (\<forall>s\<in>set segments. is_valid_characters kanji (encoder_class s) (data s))"
proof -
  let ?F = "compute_costs kanji v input (init\<lparr>qr_version := Some v\<rparr>)"
  let ?L = "length input"
  have inv: "dp_inv kanji v input ?L ?F" by (rule dp_inv_compute_costs)
  have L0: "0 < ?L" using ne by simp
  from fit cap have lt: "cost (find_best ?F input) < INF_value" by simp
  then obtain m u where mu: "m < 4" "u < 3"
      "index (find_best ?F input) = (int ?L, int m, int u)"
      "cost (find_best ?F input) = dp ?F (?L, m, u)"
    by (cases ?F input rule: find_best_cases) auto
  from mu(4) lt have fin: "dp ?F (?L, m, u) \<noteq> INF_value" by simp
  let ?d = "descend ?F ?L (int ?L, int m, int u)"
  have "reconstruct_loop ?F (int ?L, int m, int u) [] = Some (Inr ([] @ ?d))"
    using mu(1,2) fin by (intro reconstruct_loop_descend [OF inv len]) simp_all
  then have path: "reconstruct_path ?F (index (find_best ?F input)) = Some (Inr (rev ?d))"
    by (simp add: reconstruct_path_def mu(3))
  note acct = path_accounting [OF inv tbl order_refl L0 order_refl mu(1,2) fin]
  have d_len: "length ?d = ?L" and d_data: "map snd (rev (path_tags input ?d)) = input"
    and d_valid: "\<forall>z\<in>set (path_tags input ?d). is_valid_characters kanji (fst z) [snd z]"
    and d_cost: "rcost v (path_tags input ?d) \<le> dp ?F (?L, m, u)"
    using acct by simp_all
  have d_ne: "?d \<noteq> []" using d_len L0 by auto
  have range: "\<forall>p\<in>set (rev ?d). step_ok input p"
    using descend_range [OF inv order_refl order_refl mu(1,2)] fin by simp
  have "\<forall>z\<in>set (path_tags input (rev ?d)). is_valid_characters kanji (fst z) [snd z]"
    using d_valid by (simp add: path_tags_rev)
  from compute_segments_ok [OF _ range this, of v] d_ne
  obtain segments where seg: "compute_segments (rev ?d) input = Inr segments"
      "total_length v segments = rcost v (path_tags input ?d)"
      "concat (map data segments) = input"
      "\<forall>s\<in>set segments. is_valid_characters kanji (encoder_class s) (data s)"
    using d_data by (auto simp: path_tags_rev rev_map)
  have "cost (find_best ?F input) \<le> rcost v (path_tags input ?d)"
    using d_ne d_data d_valid by (intro best_lower_bound [OF inv tbl]) (simp_all add: path_tags_def)
  with d_cost mu(4) seg(2) have total: "total_length v segments = cost (find_best ?F input)"
    by simp
  have "compute kanji rMQRVersions init input version ecc = Some (Inr segments, ?F)"
    using len ver fit path seg(1) by (simp add: compute_def Let_def)
  with total seg(3,4) show ?thesis by blast
qed

lemma partition_lower_bound:
  assumes ne: "input \<noteq> []" and tbl: "table_ok v" and P: "valid_partition kanji input P"
  shows "cost (find_best (compute_costs kanji v input (init\<lparr>qr_version := q\<rparr>)) input)
           \<le> total_length v P"
proof -
  let ?F = "compute_costs kanji v input (init\<lparr>qr_version := q\<rparr>)"
  have inv: "dp_inv kanji v input (length input) ?F" by (rule dp_inv_compute_costs)
  from P have data: "concat (map data P) = input"
    and valid: "\<forall>s\<in>set P. is_valid_characters kanji (encoder_class s) (data s)"
    by (simp_all add: valid_partition_def)
  have "map snd (rev (rev (tag P))) = input"
    using data by (simp add: map_snd_tag)
  moreover from this ne have "rev (tag P) \<noteq> []" by auto
  moreover have "\<forall>z\<in>set (rev (tag P)). is_valid_characters kanji (fst z) [snd z]"
    using tag_valid [OF valid] by simp
  ultimately have "cost (find_best ?F input) \<le> rcost v (rev (tag P))"
    by (intro best_lower_bound [OF inv tbl])
  also have "\<dots> \<le> total_length v P" by (rule rcost_tag_le [OF tbl])
  finally show ?thesis .
qed

lemma compute_Nil_fit:
  assumes "rMQRVersions version = Some v"
    and "cost (find_best (base_case v (self\<lparr>qr_version := Some v\<rparr>)) []) \<le> number_of_data_bits v ecc"
    and "number_of_data_bits v ecc < INF_value"
  shows "compute kanji rMQRVersions self [] version ecc
       = Some (Inr [], base_case v (self\<lparr>qr_version := Some v\<rparr>))"
proof -
  let ?s = "base_case v (self\<lparr>qr_version := Some v\<rparr>)"
  have "fst (index (find_best ?s [])) = 0"
  proof (cases ?s "[] :: ustring" rule: find_best_cases)
    case none
    with assms(2,3) show ?thesis by simp
  next
    case (some mode u)
    then show ?thesis by simp
  qed
  then show ?thesis
    using assms
    by (cases "index (find_best ?s [])")
      (simp add: compute_def compute_costs_Nil MAX_CHARACTER_def reconstruct_path_root compute_segments_Nil)
qed

lemma find_best_Nil_fresh:
  assumes "cost (find_best (base_case v (init\<lparr>qr_version := q\<rparr>)) []) < INF_value"
  shows "cost (find_best (base_case v (init\<lparr>qr_version := q\<rparr>)) []) = Min (header v ` set encoders)"
proof -
  let ?s = "base_case v (init\<lparr>qr_version := q\<rparr>)"
  from assms obtain m u where mu: "m < 4" "u < 3"
      "cost (find_best ?s []) = dp ?s (0, m, u)"
      "\<And>m' u'. m' < 4 \<Longrightarrow> u' < 3 \<Longrightarrow> cost (find_best ?s []) \<le> dp ?s (0, m', u')"
    by (cases ?s "[] :: ustring" rule: find_best_cases) auto
  have u: "u = 0"
  proof (rule ccontr)
    assume "u \<noteq> 0"
    then have "dp ?s (0, m, u) = INF_value" by (simp add: base_case_dp init_def)
    with mu(3) assms show False by simp
  qed
  have c: "cost (find_best ?s []) = header v (encoders ! m)"
    using mu(1,3) u by (simp add: base_case_dp header_def)
  have "Min (header v ` set encoders) = header v (encoders ! m)"
  proof (rule Min_eqI)
    show "finite (header v ` set encoders)" by simp
    show "header v (encoders ! m) \<le> y" if "y \<in> header v ` set encoders" for y
    proof -
      from that obtain e where e: "y = header v e" by auto
      obtain m' where m': "m' < 4" "encoders ! m' = e" using encoder_index by blast
      have "cost (find_best ?s []) \<le> dp ?s (0, m', 0)" by (rule mu(4) [OF m'(1)]) simp
      with m' e c show ?thesis by (simp add: base_case_dp header_def)
    qed
    show "header v (encoders ! m) \<in> header v ` set encoders"
      using mu(1) by (simp add: length_encoders)
  qed
  with c show ?thesis by simp
qed

section \<open>Texts of digits\<close>

lemma length_encode_utf8_ge: "length d \<le> length (encode_utf8 d)"
proof (induction d)
  case Nil
  show ?case by simp
next
  case (Cons c d)
  have "Suc 0 \<le> length (utf8 c)" by (simp add: utf8_def)
  with Cons have "Suc (length d) \<le> length (utf8 c) + length (encode_utf8 d)" by linarith
  then show ?case by (simp add: encode_utf8_def)
qed

lemma seg_lower:
  assumes tbl: "table_ok v"
  shows "(10 * int (length (data s)) + 2) div 3 + 3 \<le> segment_length v s"
proof -
  define n where "n = int (length (data s))"
  define a where "a = (10 * n + 2) div 3"
  have a: "3 * a \<le> 10 * n + 2"
    using div3_bounds [of "10 * n + 2"] by (simp add: a_def)
  have n0: "0 \<le> n" by (simp add: n_def)
  have w: "0 \<le> character_count_indicator_length v (encoder_class s)"
    using tbl by (rule table_ok_nonneg)
  have "a \<le> encoder_length (encoder_class s) (data s) 0 - 3"
  proof (cases "encoder_class s")
    case NumericEncoder
    then show ?thesis by (simp add: NumericEncoder_length_closed a_def n_def)
  next
    case AlphanumericEncoder
    define b where "b = (11 * n + 1) div 2"
    have "11 * n + 1 \<le> 2 * b + 1"
      using div2_bounds [of "11 * n + 1"] by (simp add: b_def)
    with a n0 have "6 * a < 6 * (b + 1)" by simp
    then have "a < b + 1" by (simp only: mult_less_cancel_left_pos)
    with AlphanumericEncoder show ?thesis
      by (simp add: AlphanumericEncoder_length_closed b_def n_def)
  next
    case ByteEncoder
    have "length (data s) \<le> length (encode_utf8 (data s))"
      by (rule length_encode_utf8_ge)
    then have "n \<le> int (length (encode_utf8 (data s)))" by (simp add: n_def)
    moreover from a n0 have "3 * a < 3 * (8 * n + 1)" by simp
    then have "a < 8 * n + 1" by (simp only: mult_less_cancel_left_pos)
    ultimately show ?thesis using ByteEncoder
      by (simp add: ByteEncoder_length_def)
  next
    case KanjiEncoder
    from a n0 have "3 * a < 3 * (13 * n + 1)" by simp
    then have "a < 13 * n + 1" by (simp only: mult_less_cancel_left_pos)
    with KanjiEncoder show ?thesis
      by (simp add: KanjiEncoder_length_def n_def)
  qed
  with w show ?thesis
    unfolding segment_length_def a_def n_def
    using encoder_length_header [of "encoder_class s" "data s"
        "character_count_indicator_length v (encoder_class s)"]
    by simp
qed

lemma seg_lower_digits:
  assumes tbl: "table_ok v" and fav: "numeric_favoured v"
    and valid: "is_valid_characters kanji (encoder_class s) (data s)"
    and digits: "list_all is_digit (data s)" and nk: "\<forall>c. is_digit c \<longrightarrow> \<not> kanji c"
    and ne: "data s \<noteq> []"
  shows "(10 * int (length (data s)) + 2) div 3 + 3 + character_count_indicator_length v NumericEncoder
           + (if encoder_class s = NumericEncoder then 0 else 1) \<le> segment_length v s"
proof -
  define n where "n = int (length (data s))"
  define a where "a = (10 * n + 2) div 3"
  have a: "3 * a \<le> 10 * n + 2"
    using div3_bounds [of "10 * n + 2"] by (simp add: a_def)
  have n1: "1 \<le> n" using ne by (cases "data s") (simp_all add: n_def)
  from fav have f: "character_count_indicator_length v NumericEncoder
       \<le> character_count_indicator_length v AlphanumericEncoder + 1"
     "character_count_indicator_length v NumericEncoder
       \<le> character_count_indicator_length v ByteEncoder + 3"
    by (simp_all add: numeric_favoured_def)
  show ?thesis
  proof (cases "encoder_class s")
    case NumericEncoder
    then show ?thesis
      by (simp add: segment_length_def NumericEncoder_length_closed)
  next
    case AlphanumericEncoder
    define b where "b = (11 * n + 1) div 2"
    have "11 * n + 1 \<le> 2 * b + 1"
      using div2_bounds [of "11 * n + 1"] by (simp add: b_def)
    with a n1 have "6 * (a + 1) < 6 * b" by simp
    then have "a + 1 < b" by (simp only: mult_less_cancel_left_pos)
    with AlphanumericEncoder f(1) show ?thesis
      by (simp add: segment_length_def AlphanumericEncoder_length_closed a_def b_def n_def)
  next
    case ByteEncoder
    have "n \<le> int (length (encode_utf8 (data s)))"
      using length_encode_utf8_ge [of "data s"] by (simp add: n_def)
    moreover from a n1 have "3 * (a + 3) < 3 * (8 * n)" by simp
    then have "a + 3 < 8 * n" by (simp only: mult_less_cancel_left_pos)
    ultimately show ?thesis using ByteEncoder f(2)
      by (simp add: segment_length_def ByteEncoder_length_def a_def n_def)
  next
    case KanjiEncoder
    from ne obtain c where "c \<in> set (data s)" by (cases "data s") auto
    with digits valid nk KanjiEncoder have False
      by (auto simp: list_all_iff)
    then show ?thesis ..
  qed
qed

lemma numeric_pay_add:
  "(10 * int (x + y) + 2) div 3 \<le> (10 * int x + 2) div 3 + (10 * int y + 2) div 3"
proof -
  define a b c where "a = (10 * int x + 2) div 3" and "b = (10 * int y + 2) div 3"
    and "c = (10 * int (x + y) + 2) div 3"
  have "10 * int x + 2 \<le> 3 * a + 2" "10 * int y + 2 \<le> 3 * b + 2" "3 * c \<le> 10 * int (x + y) + 2"
    using div3_bounds [of "10 * int x + 2"] div3_bounds [of "10 * int y + 2"]
      div3_bounds [of "10 * int (x + y) + 2"]
    by (simp_all add: a_def b_def c_def)
  then have "3 * c < 3 * (a + b + 1)" by simp
  then have "c < a + b + 1" by (simp only: mult_less_cancel_left_pos)
  then show ?thesis by (simp add: a_def b_def c_def)
qed

lemma digits_partition_bound:
  assumes tbl: "table_ok v" and fav: "numeric_favoured v"
    and nk: "\<forall>c. is_digit c \<longrightarrow> \<not> kanji c"
  shows "(\<forall>s\<in>set P. is_valid_characters kanji (encoder_class s) (data s) \<and> list_all is_digit (data s)) \<Longrightarrow>
     (10 * int (length (concat (map data P))) + 2) div 3 \<le> total_length v P \<and>
     (P \<noteq> [] \<longrightarrow> (10 * int (length (concat (map data P))) + 2) div 3 + 3 \<le> total_length v P) \<and>
     (concat (map data P) \<noteq> [] \<longrightarrow>
        (10 * int (length (concat (map data P))) + 2) div 3 + 3
          + character_count_indicator_length v NumericEncoder \<le> total_length v P) \<and>
     (concat (map data P) \<noteq> [] \<longrightarrow>
        P \<noteq> [\<lparr>data = concat (map data P), encoder_class = NumericEncoder\<rparr>] \<longrightarrow>
        (10 * int (length (concat (map data P))) + 2) div 3 + 3
          + character_count_indicator_length v NumericEncoder + 1 \<le> total_length v P)"
proof (induction P)
  case Nil
  show ?case by (simp add: total_length_def)
next
  case (Cons s P)
  let ?np = "\<lambda>n. (10 * int n + 2) div 3"
  let ?ds = "length (data s)" and ?dP = "length (concat (map data P))"
  let ?wn = "character_count_indicator_length v NumericEncoder"
  have wn: "0 \<le> ?wn" using tbl by (rule table_ok_nonneg)
  have tot: "total_length v (s # P) = segment_length v s + total_length v P"
    by (simp add: total_length_def)
  have len: "length (concat (map data (s # P))) = ?ds + ?dP" by simp
  have add: "?np (?ds + ?dP) \<le> ?np ?ds + ?np ?dP" by (rule numeric_pay_add)
  have s3: "?np ?ds + 3 \<le> segment_length v s" by (rule seg_lower [OF tbl])
  from Cons.prems have sv: "is_valid_characters kanji (encoder_class s) (data s)"
    and sd: "list_all is_digit (data s)" by simp_all
  have sN: "?np ?ds + 3 + ?wn + (if encoder_class s = NumericEncoder then 0 else 1) \<le> segment_length v s"
    if "data s \<noteq> []"
    using seg_lower_digits [OF tbl fav sv sd nk that] .
  from Cons.IH Cons.prems
  have ih0: "?np ?dP \<le> total_length v P"
    and ih1: "P \<noteq> [] \<Longrightarrow> ?np ?dP + 3 \<le> total_length v P"
    and ih2: "concat (map data P) \<noteq> [] \<Longrightarrow> ?np ?dP + 3 + ?wn \<le> total_length v P"
    by simp_all
  have c0: "?np (?ds + ?dP) + 3 \<le> total_length v (s # P)"
    using add s3 ih0 tot by linarith
  have c2: "?np (?ds + ?dP) + 3 + ?wn \<le> total_length v (s # P)"
    if "concat (map data (s # P)) \<noteq> []"
  proof (cases "data s = []")
    case True
    with that have "concat (map data P) \<noteq> []" by simp
    from ih2 [OF this] s3 True tot show ?thesis by simp
  next
    case False
    from sN [OF False] have "?np ?ds + 3 + ?wn \<le> segment_length v s"
      by (simp split: if_splits)
    with add ih0 tot show ?thesis by linarith
  qed
  have c3: "?np (?ds + ?dP) + 3 + ?wn + 1 \<le> total_length v (s # P)"
    if "concat (map data (s # P)) \<noteq> []"
      "s # P \<noteq> [\<lparr>data = concat (map data (s # P)), encoder_class = NumericEncoder\<rparr>]"
  proof (cases "P = []")
    case True
    with that have ne: "data s \<noteq> []" and "s \<noteq> \<lparr>data = data s, encoder_class = NumericEncoder\<rparr>"
      by simp_all
    then have "encoder_class s \<noteq> NumericEncoder"
      by (cases s) auto
    with sN [OF ne] True tot show ?thesis
      by (simp add: total_length_def)
  next
    case False
    show ?thesis
    proof (cases "data s = []")
      case True
      with that have "concat (map data P) \<noteq> []" by simp
      from ih2 [OF this] s3 True tot show ?thesis by simp
    next
      case ne: False
      from sN [OF ne] have "?np ?ds + 3 + ?wn \<le> segment_length v s"
        by (simp split: if_splits)
      with add ih1 [OF False] tot show ?thesis by linarith
    qed
  qed
  from c0 c2 c3 wn show ?case unfolding len by auto
qed


section \<open>The claims\<close>

text \<open>
  Claim C1, as stated, fails at the empty text: \<open>compute\<close> returns no segment, whose
  total length is 0, while the minimum that \<open>_find_best\<close> finds in row 0 of the table is
  the smallest empty-header cost, 5 bits for R7x43; and 0 is below that minimum.
\<close>

theorem optimal_segmentation_counterexample:
  "map_option fst (compute no_kanji sample_versions init [] ''R7x43'' Level_M) = Some (Inr []) \<and>
   compute_length sample_versions [] ''R7x43'' = Inr 0 \<and>
   cost (find_best (compute_costs no_kanji R7x43 [] (init\<lparr>qr_version := Some R7x43\<rparr>)) []) = 5 \<and>
   compute_length sample_versions [] ''R7x43''
     \<noteq> Inr (cost (find_best (compute_costs no_kanji R7x43 [] (init\<lparr>qr_version := Some R7x43\<rparr>)) [])) \<and>
   valid_partition no_kanji [] [] \<and>
   total_length R7x43 []
     < cost (find_best (compute_costs no_kanji R7x43 [] (init\<lparr>qr_version := Some R7x43\<rparr>)) [])"
  by code_simp

text \<open>
  Claim C1, amended. For every text of at most \<open>MAX_CHARACTER\<close> characters whose
  cost fits the capacity (on a fresh optimizer, for a version entry without negative widths
  and with a capacity below \<open>INF\<close>), \<open>compute\<close> returns a segment list. When the text
  is not empty, the total length of the segments by \<open>compute_length\<close> is the cost that
  \<open>_find_best\<close> finds; the segments are a valid mode partition of the text and no valid
  mode partition of the text is shorter. When the text is empty, the list is empty and its
  total length is 0, while the cost that \<open>_find_best\<close> finds is the smallest
  empty-header cost over the four encoders, which is positive.
\<close>

theorem optimal_segmentation:
  assumes "length input \<le> MAX_CHARACTER" and "scalar_text input"
    and "rMQRVersions version = Some v" and "table_ok v"
    and "number_of_data_bits v ecc < INF_value"
    and "cost (find_best (compute_costs kanji v input (init\<lparr>qr_version := Some v\<rparr>)) input)
           \<le> number_of_data_bits v ecc"
  shows "\<exists>segments self'.
      compute kanji rMQRVersions init input version ecc = Some (Inr segments, self') \<and>
      (input \<noteq> [] \<longrightarrow>
         compute_length rMQRVersions segments version = Inr (cost (find_best self' input)) \<and>
         valid_partition kanji input segments \<and>
         (\<forall>P. valid_partition kanji input P \<longrightarrow> cost (find_best self' input) \<le> total_length v P)) \<and>
      (input = [] \<longrightarrow>
         segments = [] \<and> compute_length rMQRVersions segments version = Inr 0 \<and>
         cost (find_best self' input) = Min (header v ` set encoders) \<and>
         0 < cost (find_best self' input))"
proof (cases "input = []")
  case True
  let ?s = "base_case v (init\<lparr>qr_version := Some v\<rparr>)"
  from assms(6) True have fit: "cost (find_best ?s []) \<le> number_of_data_bits v ecc"
    by (simp add: compute_costs_Nil)
  have c: "compute kanji rMQRVersions init [] version ecc = Some (Inr [], ?s)"
    using compute_Nil_fit [where rMQRVersions = rMQRVersions and version = version and self = init
      and kanji = kanji, OF assms(3) fit assms(5)] .
  have m: "cost (find_best ?s []) = Min (header v ` set encoders)"
    using fit assms(5) by (intro find_best_Nil_fresh) simp
  have "0 < y" if "y \<in> header v ` set encoders" for y
  proof -
    from that obtain e where "y = header v e" by auto
    with table_ok_nonneg [OF assms(4), of e] show ?thesis by (simp add: header_eq)
  qed
  moreover have "Min (header v ` set encoders) \<in> header v ` set encoders"
    by (rule Min_in) (simp_all add: encoders_def)
  ultimately have "0 < Min (header v ` set encoders)" by blast
  with m have pos: "0 < cost (find_best ?s [])" by simp
  have l: "compute_length rMQRVersions [] version = Inr 0"
    by (simp add: compute_length_def)
  from c m pos l True show ?thesis by simp
next
  case False
  let ?F = "compute_costs kanji v input (init\<lparr>qr_version := Some v\<rparr>)"
  from compute_ok [where rMQRVersions = rMQRVersions and version = version,
      OF False assms(1,3,4,5,6)]
  obtain segments where s: "compute kanji rMQRVersions init input version ecc = Some (Inr segments, ?F)"
      "total_length v segments = cost (find_best ?F input)"
      "concat (map data segments) = input"
      "\<forall>s\<in>set segments. is_valid_characters kanji (encoder_class s) (data s)"
    by blast
  have "compute_length rMQRVersions segments version = Inr (cost (find_best ?F input))"
    using assms(3) s(2) by (simp add: compute_length_total)
  moreover have "valid_partition kanji input segments"
    using s(3,4) by (simp add: valid_partition_def)
  moreover have "\<forall>P. valid_partition kanji input P \<longrightarrow> cost (find_best ?F input) \<le> total_length v P"
    using partition_lower_bound [OF False assms(4)] by blast
  ultimately show ?thesis using s(1) False by blast
qed

theorem optimal_segmentation_witness:
  "length [65, 49 :: nat] \<le> MAX_CHARACTER \<and> scalar_text [65, 49] \<and>
   length ([] :: ustring) \<le> MAX_CHARACTER \<and> scalar_text [] \<and>
   sample_versions ''R7x43'' = Some R7x43 \<and> table_ok R7x43 \<and>
   number_of_data_bits R7x43 Level_M < INF_value \<and>
   (\<exists>segments self'.
      compute no_kanji sample_versions init [65, 49] ''R7x43'' Level_M = Some (Inr segments, self') \<and>
      compute_length sample_versions segments ''R7x43'' = Inr (cost (find_best self' [65, 49])) \<and>
      valid_partition no_kanji [65, 49] segments \<and>
      (\<forall>P. valid_partition no_kanji [65, 49] P \<longrightarrow>
           cost (find_best self' [65, 49]) \<le> total_length R7x43 P)) \<and>
   (\<exists>self'.
      compute no_kanji sample_versions init [] ''R7x43'' Level_M = Some (Inr [], self') \<and>
      compute_length sample_versions [] ''R7x43'' = Inr 0 \<and>
      cost (find_best self' []) = Min (header R7x43 ` set encoders) \<and>
      0 < cost (find_best self' []))"
proof -
  have 2: "length [65, 49 :: nat] \<le> MAX_CHARACTER"
    and 3: "scalar_text [65, 49]" and 4: "sample_versions ''R7x43'' = Some R7x43"
    and 5: "table_ok R7x43" and 6: "number_of_data_bits R7x43 Level_M < INF_value"
    and 8: "length ([] :: ustring) \<le> MAX_CHARACTER" and 9: "scalar_text []"
    by (simp_all add: MAX_CHARACTER_def scalar_text_def scalar_value_def sample_versions_def
        table_ok_def encoders_def R7x43_def INF_value_def)
  have 7: "cost (find_best (compute_costs no_kanji R7x43 [65, 49] (init\<lparr>qr_version := Some R7x43\<rparr>)) [65, 49])
      \<le> number_of_data_bits R7x43 Level_M"
    by code_simp
  have 10: "cost (find_best (compute_costs no_kanji R7x43 [] (init\<lparr>qr_version := Some R7x43\<rparr>)) [])
      \<le> number_of_data_bits R7x43 Level_M"
    by code_simp
  have a: "\<exists>segments self'.
      compute no_kanji sample_versions init [65, 49] ''R7x43'' Level_M = Some (Inr segments, self') \<and>
      compute_length sample_versions segments ''R7x43'' = Inr (cost (find_best self' [65, 49])) \<and>
      valid_partition no_kanji [65, 49] segments \<and>
      (\<forall>P. valid_partition no_kanji [65, 49] P \<longrightarrow>
           cost (find_best self' [65, 49]) \<le> total_length R7x43 P)"
    using optimal_segmentation [where rMQRVersions = sample_versions and version = "''R7x43''",
      OF 2 3 4 5 6 7] by simp
  have b: "\<exists>self'.
      compute no_kanji sample_versions init [] ''R7x43'' Level_M = Some (Inr [], self') \<and>
      compute_length sample_versions [] ''R7x43'' = Inr 0 \<and>
      cost (find_best self' []) = Min (header R7x43 ` set encoders) \<and>
      0 < cost (find_best self' [])"
    using optimal_segmentation [where rMQRVersions = sample_versions and version = "''R7x43''",
      OF 8 9 4 5 6 10] by auto
  from a b 2 3 4 5 6 8 9 show ?thesis by blast
qed

text \<open>
  Claim C2. For every text of at most \<open>MAX_CHARACTER\<close> characters whose cost fits the
  capacity (on a fresh optimizer, for a version entry without negative widths and with a
  capacity below \<open>INF\<close>), \<open>compute\<close> returns segments whose data, concatenated in
  order, is the text.
\<close>

theorem round_trip:
  assumes "length input \<le> MAX_CHARACTER" and "scalar_text input"
    and "rMQRVersions version = Some v" and "table_ok v"
    and "number_of_data_bits v ecc < INF_value"
    and "cost (find_best (compute_costs kanji v input (init\<lparr>qr_version := Some v\<rparr>)) input)
           \<le> number_of_data_bits v ecc"
  shows "\<exists>segments self'.
      compute kanji rMQRVersions init input version ecc = Some (Inr segments, self') \<and>
      concat (map data segments) = input"
proof (cases "input = []")
  case True
  with compute_Nil_fit [where rMQRVersions = rMQRVersions and version = version and self = init
      and kanji = kanji, OF assms(3) _ assms(5)] assms(6)
  show ?thesis by (simp add: compute_costs_Nil)
next
  case False
  from compute_ok [where rMQRVersions = rMQRVersions and version = version, OF False assms(1,3,4,5,6)]
  show ?thesis by blast
qed

theorem round_trip_witness:
  "length [65, 66, 67, 49, 50, 51 :: nat] \<le> MAX_CHARACTER \<and> scalar_text [65, 66, 67, 49, 50, 51] \<and>
   sample_versions ''R7x43'' = Some R7x43 \<and> table_ok R7x43 \<and>
   number_of_data_bits R7x43 Level_M < INF_value \<and>
   (\<exists>segments self'.
      compute no_kanji sample_versions init [65, 66, 67, 49, 50, 51] ''R7x43'' Level_M
        = Some (Inr segments, self') \<and>
      concat (map data segments) = [65, 66, 67, 49, 50, 51])"
proof -
  have 2: "length [65, 66, 67, 49, 50, 51 :: nat] \<le> MAX_CHARACTER"
    and 3: "scalar_text [65, 66, 67, 49, 50, 51]" and 4: "sample_versions ''R7x43'' = Some R7x43"
    and 5: "table_ok R7x43" and 6: "number_of_data_bits R7x43 Level_M < INF_value"
    by (simp_all add: MAX_CHARACTER_def scalar_text_def scalar_value_def sample_versions_def
        table_ok_def encoders_def R7x43_def INF_value_def)
  have 7: "cost (find_best (compute_costs no_kanji R7x43 [65, 66, 67, 49, 50, 51]
        (init\<lparr>qr_version := Some R7x43\<rparr>)) [65, 66, 67, 49, 50, 51])
      \<le> number_of_data_bits R7x43 Level_M"
    by code_simp
  from round_trip [where rMQRVersions = sample_versions and version = "''R7x43''",
      OF 2 3 4 5 6 7] 2 3 4 5 6
  show ?thesis by blast
qed

text \<open>
  Claim C3. For every non-empty text of decimal digits of at most \<open>MAX_CHARACTER\<close>
  characters whose cost fits the capacity, \<open>compute\<close> returns exactly one segment, of the
  Numeric encoder class and holding the whole text; on a fresh optimizer, for a version
  entry whose Numeric width exceeds the Alphanumeric width by at most 1 and the Byte width
  by at most 3, and a Kanji character set without digits.
\<close>

theorem all_numeric:
  assumes "input \<noteq> []" and "list_all is_digit input" and "length input \<le> MAX_CHARACTER"
    and "rMQRVersions version = Some v" and "table_ok v" and "numeric_favoured v"
    and "\<forall>c. is_digit c \<longrightarrow> \<not> kanji c"
    and "number_of_data_bits v ecc < INF_value"
    and "cost (find_best (compute_costs kanji v input (init\<lparr>qr_version := Some v\<rparr>)) input)
           \<le> number_of_data_bits v ecc"
  shows "map_option fst (compute kanji rMQRVersions init input version ecc)
       = Some (Inr [\<lparr>data = input, encoder_class = NumericEncoder\<rparr>])"
proof -
  let ?F = "compute_costs kanji v input (init\<lparr>qr_version := Some v\<rparr>)"
  let ?N = "[\<lparr>data = input, encoder_class = NumericEncoder\<rparr>]"
  from compute_ok [where rMQRVersions = rMQRVersions and version = version, OF assms(1,3,4,5,8,9)]
  obtain segments where s: "compute kanji rMQRVersions init input version ecc = Some (Inr segments, ?F)"
      "total_length v segments = cost (find_best ?F input)"
      "concat (map data segments) = input"
      "\<forall>s\<in>set segments. is_valid_characters kanji (encoder_class s) (data s)"
    by blast
  have "valid_partition kanji input ?N"
    using assms(2) by (simp add: valid_partition_def)
  from partition_lower_bound [OF assms(1,5) this]
  have "cost (find_best ?F input) \<le> total_length v ?N" .
  then have le: "total_length v segments
      \<le> (10 * int (length input) + 2) div 3 + 3 + character_count_indicator_length v NumericEncoder"
    using s(2) by (simp add: total_length_def segment_length_def NumericEncoder_length_closed)
  have digits: "\<forall>s\<in>set segments. list_all is_digit (data s)"
  proof
    fix x assume "x \<in> set segments"
    then have "set (data x) \<subseteq> set (concat (map data segments))" by auto
    with s(3) assms(2) show "list_all is_digit (data x)"
      by (auto simp: list_all_iff)
  qed
  have "segments = [\<lparr>data = concat (map data segments), encoder_class = NumericEncoder\<rparr>]"
  proof (rule ccontr)
    assume "segments \<noteq> [\<lparr>data = concat (map data segments), encoder_class = NumericEncoder\<rparr>]"
    moreover have "concat (map data segments) \<noteq> []" using s(3) assms(1) by simp
    ultimately have "(10 * int (length (concat (map data segments))) + 2) div 3 + 3
          + character_count_indicator_length v NumericEncoder + 1 \<le> total_length v segments"
      using digits_partition_bound [OF assms(5,6,7), of segments] s(4) digits by blast
    with le s(3) show False by simp
  qed
  with s(1,3) show ?thesis by simp
qed

theorem all_numeric_witness:
  "[49, 50, 51, 52] \<noteq> ([] :: ustring) \<and> list_all is_digit [49, 50, 51, 52] \<and>
   length [49, 50, 51, 52 :: nat] \<le> MAX_CHARACTER \<and>
   sample_versions ''R7x43'' = Some R7x43 \<and> table_ok R7x43 \<and> numeric_favoured R7x43 \<and>
   number_of_data_bits R7x43 Level_M < INF_value \<and>
   map_option fst (compute no_kanji sample_versions init [49, 50, 51, 52] ''R7x43'' Level_M)
     = Some (Inr [\<lparr>data = [49, 50, 51, 52], encoder_class = NumericEncoder\<rparr>])"
proof -
  have 1: "[49, 50, 51, 52] \<noteq> ([] :: ustring)" and 2: "list_all is_digit [49, 50, 51, 52]"
    and 3: "length [49, 50, 51, 52 :: nat] \<le> MAX_CHARACTER"
    and 4: "sample_versions ''R7x43'' = Some R7x43"
    and 5: "table_ok R7x43" and 6: "numeric_favoured R7x43"
    and 7: "\<forall>c. is_digit c \<longrightarrow> \<not> no_kanji c"
    and 8: "number_of_data_bits R7x43 Level_M < INF_value"
    by (simp_all add: MAX_CHARACTER_def is_digit_def sample_versions_def no_kanji_def
        table_ok_def numeric_favoured_def encoders_def R7x43_def INF_value_def)
  have 9: "cost (find_best (compute_costs no_kanji R7x43 [49, 50, 51, 52] (init\<lparr>qr_version := Some R7x43\<rparr>))
        [49, 50, 51, 52]) \<le> number_of_data_bits R7x43 Level_M"
    by code_simp
  from all_numeric [where rMQRVersions = sample_versions and version = "''R7x43''",
      OF 1 2 3 4 5 6 7 8 9] 1 2 3 4 5 6 8
  show ?thesis by blast
qed

text \<open>
  Claim C4. For a position \<open>n\<close> of a text of Unicode scalar values: a candidate
  transition whose cost is not below the cost stored in the target cell leaves the tables
  as they are (the comparison is strict), and \<open>_find_best\<close> returns, whenever some
  terminal state has a cost below \<open>INF\<close>, a terminal state of minimal cost such that
  every other terminal state of the same cost has a larger mode index, or the same mode and
  a larger unfilled length.
\<close>

theorem tie_break:
  assumes "n < length input" and "scalar_text input"
  shows "(dp self (n + 1, new_mode, snd (new_state v (input ! n) mode u new_mode))
      \<le> dp self (n, mode, u) + fst (new_state v (input ! n) mode u new_mode) \<longrightarrow>
    relax kanji v input n mode u new_mode self = self)
   \<and> ((\<exists>m<4. \<exists>l<3. dp self (length input, m, l) < INF_value) \<longrightarrow>
      (\<exists>m<4. \<exists>l<3.
          index (find_best self input) = (int (length input), int m, int l) \<and>
          cost (find_best self input) = dp self (length input, m, l) \<and>
          (\<forall>m'<4. \<forall>l'<3.
              cost (find_best self input) \<le> dp self (length input, m', l') \<and>
              (dp self (length input, m', l') = cost (find_best self input) \<longrightarrow>
                 m < m' \<or> (m = m' \<and> l \<le> l')))))"
proof (intro conjI impI)
  assume "dp self (n + 1, new_mode, snd (new_state v (input ! n) mode u new_mode))
      \<le> dp self (n, mode, u) + fst (new_state v (input ! n) mode u new_mode)"
  then show "relax kanji v input n mode u new_mode self = self"
    by (simp add: relax_eq)
next
  assume ex: "\<exists>m<4. \<exists>l<3. dp self (length input, m, l) < INF_value"
  show "\<exists>m<4. \<exists>l<3.
          index (find_best self input) = (int (length input), int m, int l) \<and>
          cost (find_best self input) = dp self (length input, m, l) \<and>
          (\<forall>m'<4. \<forall>l'<3.
              cost (find_best self input) \<le> dp self (length input, m', l') \<and>
              (dp self (length input, m', l') = cost (find_best self input) \<longrightarrow>
                 m < m' \<or> (m = m' \<and> l \<le> l')))"
  proof (cases self input rule: find_best_cases)
    case none
    with ex show ?thesis by force
  next
    case (some mode u)
    then show ?thesis by blast
  qed
qed

theorem tie_break_witness:
  "0 < length [49::nat] \<and> scalar_text [49] \<and>
   dp (compute_costs no_kanji tie_version [49] init) (length [49::nat], 0, 1) = 11 \<and>
   dp (compute_costs no_kanji tie_version [49] init) (length [49::nat], 1, 1) = 11 \<and>
   relax no_kanji tie_version [49] 0 1 0 1 (compute_costs no_kanji tie_version [49] init)
     = compute_costs no_kanji tie_version [49] init \<and>
   index (find_best (compute_costs no_kanji tie_version [49] init) [49]) = (1, 0, 1)"
proof -
  let ?s = "compute_costs no_kanji tie_version [49] init"
  have a: "dp ?s (length [49::nat], 0, 1) = 11" and b: "dp ?s (length [49::nat], 1, 1) = 11"
    and z: "dp ?s (length [49::nat], 0, 0) = INF_value"
    by code_simp+
  have c: "dp ?s (0 + 1, 1, snd (new_state tie_version ([49] ! 0) 1 0 1))
      \<le> dp ?s (0, 1, 0) + fst (new_state tie_version ([49] ! 0) 1 0 1)"
    by code_simp
  have d: "\<exists>m<4. \<exists>l<3. dp ?s (length [49::nat], m, l) < INF_value"
    using a by (intro exI [of _ 0] exI [of _ 1] conjI) (simp_all add: INF_value_def)
  have e: "0 < length [49::nat]" and f: "scalar_text [49]"
    by (simp_all add: scalar_text_def scalar_value_def)
  from tie_break [where self = ?s and n = 0 and new_mode = 1 and v = tie_version and input = "[49]"
      and mode = 1 and u = 0 and kanji = no_kanji, OF e f] c d
  have r: "relax no_kanji tie_version [49] 0 1 0 1 ?s = ?s"
    and "\<exists>m<4. \<exists>l<3.
          index (find_best ?s [49]) = (int (length [49::nat]), int m, int l) \<and>
          cost (find_best ?s [49]) = dp ?s (length [49::nat], m, l) \<and>
          (\<forall>m'<4. \<forall>l'<3.
              cost (find_best ?s [49]) \<le> dp ?s (length [49::nat], m', l') \<and>
              (dp ?s (length [49::nat], m', l') = cost (find_best ?s [49]) \<longrightarrow>
                 m < m' \<or> (m = m' \<and> l \<le> l')))"
    by blast+
  then obtain m l where ml: "m < 4" "l < 3"
      "index (find_best ?s [49]) = (int (length [49::nat]), int m, int l)"
      "cost (find_best ?s [49]) = dp ?s (length [49::nat], m, l)"
      "\<And>m' l'. m' < 4 \<Longrightarrow> l' < 3 \<Longrightarrow> cost (find_best ?s [49]) \<le> dp ?s (length [49::nat], m', l')"
      "\<And>m' l'. m' < 4 \<Longrightarrow> l' < 3 \<Longrightarrow> dp ?s (length [49::nat], m', l') = cost (find_best ?s [49]) \<Longrightarrow>
                 m < m' \<or> (m = m' \<and> l \<le> l')"
    by blast
  have "cost (find_best ?s [49]) = 11"
    by code_simp
  with ml(6) [of 0 1] a have "m = 0" "l \<le> 1" by auto
  moreover have "l \<noteq> 0"
  proof
    assume "l = 0"
    with ml(4) z \<open>m = 0\<close> \<open>cost (find_best ?s [49]) = 11\<close> show False
      by (simp add: INF_value_def)
  qed
  ultimately have "m = 0 \<and> l = 1" by auto
  with ml(3) a b r e f show ?thesis by simp
qed

text \<open>
  Claim C5. For a text of Unicode scalar values of at most \<open>MAX_CHARACTER\<close> characters
  and a version of the table: when the cost found by \<open>_find_best\<close> exceeds the number of
  data bits of the version at the error correction level, \<open>compute\<close> raises
  \<open>DataTooLongError\<close> and returns no segments; when it does not, \<open>compute\<close> does not
  raise that error.
\<close>

theorem capacity_check:
  assumes "length input \<le> MAX_CHARACTER" and "rMQRVersions version = Some v"
    and "scalar_text input"
  shows "(number_of_data_bits v ecc
            < cost (find_best (compute_costs kanji v input (self\<lparr>qr_version := Some v\<rparr>)) input) \<longrightarrow>
          map_option fst (compute kanji rMQRVersions self input version ecc) = Some (Inl DataTooLongError))
       \<and> (cost (find_best (compute_costs kanji v input (self\<lparr>qr_version := Some v\<rparr>)) input)
            \<le> number_of_data_bits v ecc \<longrightarrow>
          map_option fst (compute kanji rMQRVersions self input version ecc) \<noteq> Some (Inl DataTooLongError))"
  using assms
  by (auto simp: compute_def Let_def split: option.splits sum.splits
      dest: reconstruct_path_error compute_segments_error)

theorem capacity_check_witness:
  "length [97, 98, 99, 100, 101, 102, 103 :: nat] \<le> MAX_CHARACTER \<and> sample_versions ''R7x43'' = Some R7x43 \<and>
   scalar_text [97, 98, 99, 100, 101, 102, 103] \<and>
   map_option fst (compute no_kanji sample_versions init [97, 98, 99, 100, 101, 102, 103] ''R7x43'' Level_M)
     = Some (Inl DataTooLongError) \<and>
   map_option fst (compute no_kanji sample_versions init [97, 98, 99, 100, 101] ''R7x43'' Level_M)
     \<noteq> Some (Inl DataTooLongError)"
proof -
  have 1: "length [97, 98, 99, 100, 101, 102, 103 :: nat] \<le> MAX_CHARACTER"
    and 2: "length [97, 98, 99, 100, 101 :: nat] \<le> MAX_CHARACTER"
    by (simp_all add: MAX_CHARACTER_def)
  have 3: "sample_versions ''R7x43'' = Some R7x43"
    by (simp add: sample_versions_def)
  have 6: "scalar_text [97, 98, 99, 100, 101, 102, 103]" and 7: "scalar_text [97, 98, 99, 100, 101]"
    by (simp_all add: scalar_text_def scalar_value_def)
  have 4: "number_of_data_bits R7x43 Level_M
      < cost (find_best (compute_costs no_kanji R7x43 [97, 98, 99, 100, 101, 102, 103] (init\<lparr>qr_version := Some R7x43\<rparr>))
          [97, 98, 99, 100, 101, 102, 103])"
    by code_simp
  have 5: "cost (find_best (compute_costs no_kanji R7x43 [97, 98, 99, 100, 101] (init\<lparr>qr_version := Some R7x43\<rparr>))
          [97, 98, 99, 100, 101]) \<le> number_of_data_bits R7x43 Level_M"
    by code_simp
  show ?thesis
    using capacity_check [where input = "[97, 98, 99, 100, 101, 102, 103]" and rMQRVersions = sample_versions
          and version = "''R7x43''" and v = R7x43 and ecc = Level_M and kanji = no_kanji and self = init]
      capacity_check [where input = "[97, 98, 99, 100, 101]" and rMQRVersions = sample_versions
          and version = "''R7x43''" and v = R7x43 and ecc = Level_M and kanji = no_kanji and self = init]
      1 2 3 4 5 6 7 by simp
qed

text \<open>
  Claim C6. An input of more than \<open>MAX_CHARACTER\<close> characters makes \<open>compute\<close> raise
  \<open>DataTooLongError\<close> at once, whatever the table, the version and the error correction
  level are, and the tables are left untouched.
\<close>

theorem compute_character_cap:
  "length input > MAX_CHARACTER \<Longrightarrow>
   compute kanji rMQRVersions self input version ecc = Some (Inl DataTooLongError, self)"
  by (simp add: compute_def)

theorem compute_character_cap_witness:
  "length (replicate 361 (48::nat)) > MAX_CHARACTER \<and>
   compute no_kanji sample_versions init (replicate 361 48) ''R7x43'' Level_M
     = Some (Inl DataTooLongError, init)"
  using compute_character_cap [of "replicate 361 48" no_kanji sample_versions init "''R7x43''" Level_M]
  by (simp add: MAX_CHARACTER_def)

text \<open>
  Claim C7, as stated, fails: \<open>zfill\<close> pads but never truncates, so that a character
  count of four under a width of two takes three bits and the encoded string is one bit
  longer than \<open>length\<close> says.
\<close>

theorem ByteEncoder_length_counterexample:
  "int (length (ByteEncoder_encode [97, 98, 99, 100] 2)) \<noteq> ByteEncoder_length [97, 98, 99, 100] 2"
  by code_simp

text \<open>
  Claim C7, amended. For a text of Unicode scalar values, \<open>ByteEncoder.length\<close> is
  3 plus the width plus 8 bits for each UTF-8 byte, and it equals the number of bits of
  \<open>ByteEncoder.encode\<close> exactly when the width is positive and the character count is
  below 2 to the power of the width.
\<close>

theorem ByteEncoder_length_encode:
  assumes "scalar_text input"
  shows "ByteEncoder_length input w = 3 + w + 8 * int (length (encode_utf8 input)) \<and>
         (int (length (ByteEncoder_encode input w)) = ByteEncoder_length input w
            \<longleftrightarrow> 0 < w \<and> int (length input) < 2 ^ nat w)"
proof -
  have pos: "0 < length (bin_digits (length input))"
    by (subst bin_digits.simps) simp
  have "int (length (bin_digits (length input))) \<le> w \<longleftrightarrow> 0 < w \<and> length input < 2 ^ nat w"
  proof (cases "0 < w")
    case True
    then show ?thesis
      using length_bin_digits_le [of "length input" "nat w"] by auto
  next
    case False
    then show ?thesis using pos by linarith
  qed
  moreover have "int (length input) < 2 ^ nat w \<longleftrightarrow> length input < 2 ^ nat w"
    by (metis of_nat_less_iff of_nat_numeral of_nat_power)
  ultimately show ?thesis
    by (auto simp: length_ByteEncoder_encode ByteEncoder_length_def)
qed

theorem ByteEncoder_length_encode_witness:
  "scalar_text [97, 98, 99, 100] \<and>
   ByteEncoder_length [97, 98, 99, 100] 3 = 3 + 3 + 8 * 4 \<and>
   int (length (ByteEncoder_encode [97, 98, 99, 100] 3)) = ByteEncoder_length [97, 98, 99, 100] 3"
proof -
  have s: "scalar_text [97, 98, 99, 100]"
    by (simp add: scalar_text_def scalar_value_def)
  have "length (encode_utf8 [97, 98, 99, 100]) = 4"
    by (simp add: encode_utf8_def utf8_def)
  with ByteEncoder_length_encode [OF s, of 3] s show ?thesis
    by simp
qed

text \<open>
  Claim C8 is what the optimizer should do, and the code does not do it: the constructor
  allocates the tables and \<open>compute\<close> never resets them. After a call on the text "1",
  the cost 11 of the digit is still stored, and a call on the text "A" on the same
  optimizer returns "A" as a Numeric segment, which is not valid for that encoder, where a
  fresh optimizer returns an Alphanumeric segment. After a call on the text "123" at level
  H, a call on the text "abc" returns it as a Numeric segment, where a fresh optimizer
  raises \<open>DataTooLongError\<close>.
\<close>

theorem reuse_stale_tables:
  "map_option fst (compute no_kanji sample_versions init [49] ''R7x43'' Level_M)
     = Some (Inr [\<lparr>data = [49], encoder_class = NumericEncoder\<rparr>]) \<and>
   dp (snd (the (compute no_kanji sample_versions init [49] ''R7x43'' Level_M))) (1, 0, 1) = 11 \<and>
   map_option fst (compute no_kanji sample_versions
       (snd (the (compute no_kanji sample_versions init [49] ''R7x43'' Level_M))) [65] ''R7x43'' Level_M)
     = Some (Inr [\<lparr>data = [65], encoder_class = NumericEncoder\<rparr>]) \<and>
   map_option fst (compute no_kanji sample_versions init [65] ''R7x43'' Level_M)
     = Some (Inr [\<lparr>data = [65], encoder_class = AlphanumericEncoder\<rparr>]) \<and>
   \<not> is_valid_characters no_kanji NumericEncoder [65] \<and>
   map_option fst (compute no_kanji sample_versions init [49, 50, 51] ''R7x43'' Level_H)
     = Some (Inr [\<lparr>data = [49, 50, 51], encoder_class = NumericEncoder\<rparr>]) \<and>
   map_option fst (compute no_kanji sample_versions
       (snd (the (compute no_kanji sample_versions init [49, 50, 51] ''R7x43'' Level_H)))
       [97, 98, 99] ''R7x43'' Level_H)
     = Some (Inr [\<lparr>data = [97, 98, 99], encoder_class = NumericEncoder\<rparr>]) \<and>
   map_option fst (compute no_kanji sample_versions init [97, 98, 99] ''R7x43'' Level_H)
     = Some (Inl DataTooLongError)"
  by code_simp


text \<open>
  Claim C9, as stated, fails: the base case stores \<open>(0, 0, 0)\<close> in every root parent
  cell, which is not the index of the root cell of the Alphanumeric mode.
\<close>

theorem root_parent_counterexample:
  "parents (base_case R7x43 init) (0, 1, 0) \<noteq> (0, 1, 0)"
  by (simp add: base_case_parents)

text \<open>
  Claim C9, amended. After the base case every root parent cell \<open>parents[0][mode][0]\<close>
  holds \<open>(0, 0, 0)\<close>; that is its own index for the Numeric mode only.
\<close>

theorem root_parent_cells:
  "mode < 4 \<Longrightarrow>
   parents (base_case v self) (0, mode, 0) = (0, 0, 0) \<and>
   (parents (base_case v self) (0, mode, 0) = (0, int mode, 0) \<longleftrightarrow> mode = 0)"
  by (simp add: base_case_parents)

theorem root_parent_cells_witness:
  "(2::nat) < 4 \<and> parents (base_case R7x43 init) (0, 2, 0) = (0, 0, 0) \<and>
   (parents (base_case R7x43 init) (0, 2, 0) = (0, int 2, 0) \<longleftrightarrow> (2::nat) = 0)"
  using root_parent_cells [of 2 R7x43 init] by simp

text \<open>
  Claim C10. For the empty text, when some mode has an empty-header cost within the number
  of data bits of the version at the error correction level (and that number is below
  \<open>INF\<close>), \<open>compute\<close> returns the empty list of segments.
\<close>

theorem empty_input:
  assumes "rMQRVersions version = Some v"
    and "encoder_length e [] (character_count_indicator_length v e) \<le> number_of_data_bits v ecc"
    and "number_of_data_bits v ecc < INF_value"
  shows "map_option fst (compute kanji rMQRVersions self [] version ecc) = Some (Inr [])"
proof -
  let ?s = "base_case v (self\<lparr>qr_version := Some v\<rparr>)"
  obtain m where m: "m < 4" "encoders ! m = e"
    using encoder_index by blast
  then have cell: "dp ?s (length ([] :: ustring), m, 0) \<le> number_of_data_bits v ecc"
    using assms(2) by (simp add: base_case_dp)
  have "cost (find_best ?s []) \<le> number_of_data_bits v ecc \<and> fst (index (find_best ?s [])) = 0"
  proof (cases ?s "[] :: ustring" rule: find_best_cases)
    case none
    from none(3) [of m 0] m cell assms(3) show ?thesis by simp
  next
    case (some mode u)
    from some(6) [of m 0] m cell some(3) show ?thesis by simp
  qed
  then show ?thesis
    using assms(1)
    by (cases "index (find_best ?s [])")
      (simp add: compute_def compute_costs_Nil MAX_CHARACTER_def reconstruct_path_root compute_segments_Nil)
qed

theorem empty_input_witness:
  "sample_versions ''R7x43'' = Some R7x43 \<and>
   encoder_length KanjiEncoder [] (character_count_indicator_length R7x43 KanjiEncoder)
     \<le> number_of_data_bits R7x43 Level_H \<and>
   number_of_data_bits R7x43 Level_H < INF_value \<and>
   map_option fst (compute no_kanji sample_versions init [] ''R7x43'' Level_H) = Some (Inr [])"
  using empty_input [where rMQRVersions = sample_versions and version = "''R7x43''" and v = R7x43
      and e = KanjiEncoder and ecc = Level_H and kanji = no_kanji and self = init]
  by (simp add: sample_versions_def R7x43_def INF_value_def KanjiEncoder_length_def)

end
